theory Spec2Isabelle
  imports Complex_Main "HOL-Library.Multiset"
begin

section \<open>HostHunter (wolf.go): data model\<close>

text \<open>
  The program probes a list of domains with a pool of workers. The model follows
  \<^verbatim>\<open>src/wolf.go\<close>: the types \<^verbatim>\<open>Result\<close> and \<^verbatim>\<open>StatusChecker\<close>, the method
  \<^verbatim>\<open>checkDomain\<close>, the goroutines started by \<^verbatim>\<open>main\<close> and the loop of
  \<^verbatim>\<open>processResults\<close>.

  What \<^verbatim>\<open>sc.client.Get\<close> returns is the environment's choice: a transport error
  (\<open>Inl\<close>, with its description) or a response, of which the program only looks at
  \<^verbatim>\<open>StatusCode\<close> (\<open>Inr\<close>). Wall-clock time (\<^verbatim>\<open>Duration\<close>, \<^verbatim>\<open>startTime\<close>) is
  left out of the model.
\<close>

type_synonym error = string

type_synonym response = "error + int"

text \<open>\<^verbatim>\<open>type Result struct\<close>; a nil \<^verbatim>\<open>Error\<close> is \<open>None\<close>, and a \<^verbatim>\<open>StatusCode\<close> that
  is not set has Go's zero value \<open>0\<close>.\<close>

record Result =
  Domain :: string
  StatusCode :: int
  Error :: "error option"

text \<open>The fields of \<^verbatim>\<open>StatusChecker\<close> that the program changes or reads back.\<close>

record StatusChecker =
  successfulDomains :: "string list"
  totalDomains :: int
  processedDomains :: int

text \<open>\<^verbatim>\<open>NewStatusChecker\<close>: an empty list, a zero counter.\<close>

definition NewStatusChecker :: "int \<Rightarrow> StatusChecker" where
  "NewStatusChecker n =
     \<lparr>successfulDomains = [], totalDomains = n, processedDomains = 0\<rparr>"

text \<open>What one call of \<^verbatim>\<open>checkDomain\<close> does besides computing its result, in
  program order. \<open>BodyRead\<close> stands for reading the response body.\<close>

datatype event = Get string | BodyRead | BodyClose | Lock | Append string | Unlock

subsection \<open>Strings\<close>

text \<open>\<^verbatim>\<open>strings.HasPrefix\<close> and \<^verbatim>\<open>strings.TrimPrefix\<close> of Go's library: the first
  compares the leading bytes, the second drops the prefix when it is there.\<close>

definition HasPrefix :: "string \<Rightarrow> string \<Rightarrow> bool" where
  "HasPrefix s p \<longleftrightarrow> length p \<le> length s \<and> take (length p) s = p"

definition TrimPrefix :: "string \<Rightarrow> string \<Rightarrow> string" where
  "TrimPrefix s p = (if HasPrefix s p then drop (length p) s else s)"

subsection \<open>checkDomain\<close>

text \<open>Lines 93 to 95: a domain that does not start with \<^verbatim>\<open>http\<close> gets \<^verbatim>\<open>https://\<close>
  in front.\<close>

definition normalize :: "string \<Rightarrow> string" where
  "normalize domain =
     (if \<not> HasPrefix domain ''http'' then ''https://'' @ domain else domain)"

text \<open>Line 108: the window of status codes that count as successful.\<close>

definition inWindow :: "int \<Rightarrow> bool" where
  "inWindow code \<longleftrightarrow> 1 \<le> code \<and> code \<le> 500"

text \<open>\<^verbatim>\<open>checkDomain\<close> run on its own (no other goroutine touches the checker
  meanwhile). \<open>get\<close> is \<^verbatim>\<open>sc.client.Get\<close>. The deferred \<^verbatim>\<open>resp.Body.Close()\<close> runs
  when the function returns, so it is the last event.\<close>

definition checkDomain ::
  "(string \<Rightarrow> response) \<Rightarrow> StatusChecker \<Rightarrow> string \<Rightarrow> Result \<times> StatusChecker \<times> event list" where
  "checkDomain get sc domain0 =
     (let domain = normalize domain0 in
      case get domain of
        Inl err \<Rightarrow>
          (\<lparr>Domain = domain, StatusCode = 0, Error = Some err\<rparr>, sc, [Get domain])
      | Inr code \<Rightarrow>
          if inWindow code then
            (let domain' = TrimPrefix domain ''https://'' in
             (\<lparr>Domain = domain', StatusCode = code, Error = None\<rparr>,
              sc\<lparr>successfulDomains := successfulDomains sc @ [domain']\<rparr>,
              [Get domain, Lock, Append domain', Unlock, BodyClose]))
          else
            (\<lparr>Domain = domain, StatusCode = code, Error = None\<rparr>, sc,
             [Get domain, BodyClose]))"

section \<open>The pipeline of goroutines\<close>

text \<open>
  \<^verbatim>\<open>main\<close> starts \<open>n\<close> workers, the goroutine that feeds the domains (lines 217 to
  222), the goroutine that waits for the workers and closes \<^verbatim>\<open>results\<close> (lines 225 to
  228), and runs \<^verbatim>\<open>processResults\<close> itself. The model is an interleaving of atomic
  steps: each goroutine has a program point, one step moves one goroutine to its next
  point, and a goroutine that waits (on a channel, on the mutex, on the wait group) has
  no step. The append to \<^verbatim>\<open>successfulDomains\<close> and the increment of
  \<^verbatim>\<open>processedDomains\<close> are each a read followed by a write, so that an update could be
  lost if the mutex did not exclude it.
\<close>

datatype thread = Feeder | Worker nat | Closer | Aggregator

text \<open>The feeder: the domains it still has to send, then \<^verbatim>\<open>close(domains)\<close>.\<close>

datatype fstate = FSend "string list" | FDone

text \<open>A worker, with \<^verbatim>\<open>checkDomain\<close> inlined: receive (line 125), GET (lines 93 to 97),
  lock (109), trim and read the list (110, 111), write the list (111), unlock (112),
  send the result (126), the deferred \<^verbatim>\<open>wg.Done()\<close> (124).\<close>

datatype wstate =
    WRecv
  | WGet string
  | WLock string int
  | WRead string int
  | WWrite string int "string list"
  | WUnlock string int
  | WSend Result
  | WExit
  | WDone

text \<open>The closer: \<^verbatim>\<open>wg.Wait()\<close>, then \<^verbatim>\<open>close(results)\<close>.\<close>

datatype cstate = CWait | CClose | CDone

text \<open>\<^verbatim>\<open>processResults\<close>: receive (line 132), lock (133), read and write the counter
  (134), compute the percentage (135), unlock (136), print (138 to 145).\<close>

datatype astate =
    ARecv
  | ALock Result
  | ARead Result
  | AWrite Result int
  | APct Result
  | AUnlock Result real
  | APrint Result real
  | ADone

text \<open>A printed line: the failure branch prints the domain and the percentage, the other
  branch the domain, the status code (with its text) and the percentage.\<close>

datatype line = FailedLine string real | StatusLine string int real

record config =
  checker :: StatusChecker
  mu :: "thread option"
  domainsCh :: "string list"
  domainsClosed :: bool
  resultsCh :: "Result list"
  resultsClosed :: bool
  wg :: nat
  feeder :: fstate
  workers :: "wstate list"
  closer :: cstate
  aggregator :: astate
  printed :: "line list"
  probes :: "(string \<times> response) list"
  crashed :: bool

definition bufferSize :: nat where
  "bufferSize = 100"

text \<open>Line 135, in exact arithmetic.\<close>

definition percentage :: "StatusChecker \<Rightarrow> real" where
  "percentage s = real_of_int (processedDomains s) / real_of_int (totalDomains s) * 100"

text \<open>Lines 138 to 145.\<close>

definition printLine :: "Result \<Rightarrow> real \<Rightarrow> line" where
  "printLine r p =
     (case Error r of
        Some e \<Rightarrow> FailedLine (Domain r) p
      | None \<Rightarrow> StatusLine (Domain r) (StatusCode r) p)"

text \<open>The field \<open>probes\<close> of a configuration is a history of the GET requests issued:
  the domain each worker took from the channel, with the network's answer, in the order
  of the requests. No step reads it.\<close>

text \<open>A Go panic (send on a closed channel, close of a closed channel, a negative
  wait-group counter, unlock of an unlocked mutex) ends the process.\<close>

definition crash :: "config \<Rightarrow> config option" where
  "crash c = Some (c\<lparr>crashed := True\<rparr>)"

definition feederStep :: "config \<Rightarrow> config option" where
  "feederStep c =
     (case feeder c of
        FSend (d # ds) \<Rightarrow>
          if domainsClosed c then crash c
          else if length (domainsCh c) < bufferSize
          then Some (c\<lparr>domainsCh := domainsCh c @ [d], feeder := FSend ds\<rparr>)
          else None
      | FSend [] \<Rightarrow>
          if domainsClosed c then crash c
          else Some (c\<lparr>domainsClosed := True, feeder := FDone\<rparr>)
      | FDone \<Rightarrow> None)"

definition setWorker :: "nat \<Rightarrow> wstate \<Rightarrow> config \<Rightarrow> config" where
  "setWorker i w c = c\<lparr>workers := (workers c)[i := w]\<rparr>"

definition workerStep :: "nat \<Rightarrow> response \<Rightarrow> config \<Rightarrow> config option" where
  "workerStep i resp c =
     (case workers c ! i of
        WRecv \<Rightarrow>
          (case domainsCh c of
             d # ds \<Rightarrow> Some (setWorker i (WGet d) (c\<lparr>domainsCh := ds\<rparr>))
           | [] \<Rightarrow> if domainsClosed c then Some (setWorker i WExit c) else None)
      | WGet d \<Rightarrow>
          (case resp of
             Inl err \<Rightarrow>
               Some (setWorker i
                 (WSend \<lparr>Domain = normalize d, StatusCode = 0, Error = Some err\<rparr>)
                 (c\<lparr>probes := probes c @ [(d, resp)]\<rparr>))
           | Inr code \<Rightarrow>
               if inWindow code
               then Some (setWorker i (WLock (normalize d) code)
                 (c\<lparr>probes := probes c @ [(d, resp)]\<rparr>))
               else Some (setWorker i
                 (WSend \<lparr>Domain = normalize d, StatusCode = code, Error = None\<rparr>)
                 (c\<lparr>probes := probes c @ [(d, resp)]\<rparr>)))
      | WLock url code \<Rightarrow>
          (case mu c of
             None \<Rightarrow> Some (setWorker i (WRead url code) (c\<lparr>mu := Some (Worker i)\<rparr>))
           | Some t \<Rightarrow> None)
      | WRead url code \<Rightarrow>
          Some (setWorker i
            (WWrite (TrimPrefix url ''https://'') code (successfulDomains (checker c))) c)
      | WWrite dm code tmp \<Rightarrow>
          Some (setWorker i (WUnlock dm code)
            (c\<lparr>checker := (checker c)\<lparr>successfulDomains := tmp @ [dm]\<rparr>\<rparr>))
      | WUnlock dm code \<Rightarrow>
          if mu c = None then crash c
          else Some (setWorker i
            (WSend \<lparr>Domain = dm, StatusCode = code, Error = None\<rparr>) (c\<lparr>mu := None\<rparr>))
      | WSend r \<Rightarrow>
          if resultsClosed c then crash c
          else if length (resultsCh c) < bufferSize
          then Some (setWorker i WRecv (c\<lparr>resultsCh := resultsCh c @ [r]\<rparr>))
          else None
      | WExit \<Rightarrow>
          if wg c = 0 then crash c
          else Some (setWorker i WDone (c\<lparr>wg := wg c - 1\<rparr>))
      | WDone \<Rightarrow> None)"

definition closerStep :: "config \<Rightarrow> config option" where
  "closerStep c =
     (case closer c of
        CWait \<Rightarrow> if wg c = 0 then Some (c\<lparr>closer := CClose\<rparr>) else None
      | CClose \<Rightarrow>
          if resultsClosed c then crash c
          else Some (c\<lparr>resultsClosed := True, closer := CDone\<rparr>)
      | CDone \<Rightarrow> None)"

definition aggregatorStep :: "config \<Rightarrow> config option" where
  "aggregatorStep c =
     (case aggregator c of
        ARecv \<Rightarrow>
          (case resultsCh c of
             r # rs \<Rightarrow> Some (c\<lparr>resultsCh := rs, aggregator := ALock r\<rparr>)
           | [] \<Rightarrow> if resultsClosed c then Some (c\<lparr>aggregator := ADone\<rparr>) else None)
      | ALock r \<Rightarrow>
          (case mu c of
             None \<Rightarrow> Some (c\<lparr>mu := Some Aggregator, aggregator := ARead r\<rparr>)
           | Some t \<Rightarrow> None)
      | ARead r \<Rightarrow> Some (c\<lparr>aggregator := AWrite r (processedDomains (checker c))\<rparr>)
      | AWrite r tmp \<Rightarrow>
          Some (c\<lparr>checker := (checker c)\<lparr>processedDomains := tmp + 1\<rparr>, aggregator := APct r\<rparr>)
      | APct r \<Rightarrow> Some (c\<lparr>aggregator := AUnlock r (percentage (checker c))\<rparr>)
      | AUnlock r p \<Rightarrow>
          if mu c = None then crash c
          else Some (c\<lparr>mu := None, aggregator := APrint r p\<rparr>)
      | APrint r p \<Rightarrow> Some (c\<lparr>printed := printed c @ [printLine r p], aggregator := ARecv\<rparr>)
      | ADone \<Rightarrow> None)"

text \<open>One step of goroutine \<open>t\<close>; \<open>resp\<close> is what the network answers if the step is a
  GET. \<open>None\<close>: the goroutine waits, has ended, or the process has crashed.\<close>

definition fire :: "thread \<Rightarrow> response \<Rightarrow> config \<Rightarrow> config option" where
  "fire t resp c =
     (if crashed c then None
      else case t of
        Feeder \<Rightarrow> feederStep c
      | Worker i \<Rightarrow> if i < length (workers c) then workerStep i resp c else None
      | Closer \<Rightarrow> closerStep c
      | Aggregator \<Rightarrow> aggregatorStep c)"

text \<open>The state in which \<^verbatim>\<open>main\<close> calls \<^verbatim>\<open>processResults\<close> (lines 205 to 231): the
  checker is new, both channels are empty and open, \<^verbatim>\<open>wg.Add(1)\<close> has run \<open>n\<close> times.\<close>

definition init :: "string list \<Rightarrow> nat \<Rightarrow> config" where
  "init domainsList n =
     \<lparr>checker = NewStatusChecker (int (length domainsList)), mu = None,
      domainsCh = [], domainsClosed = False, resultsCh = [], resultsClosed = False,
      wg = n, feeder = FSend domainsList, workers = replicate n WRecv,
      closer = CWait, aggregator = ARecv, printed = [], probes = [], crashed = False\<rparr>"

text \<open>A schedule is the list of goroutines that step, each with the network's answer.\<close>

fun run :: "(thread \<times> response) list \<Rightarrow> config \<Rightarrow> config option" where
  "run [] c = Some c"
| "run ((t, resp) # sched) c =
     (case fire t resp c of None \<Rightarrow> None | Some c' \<Rightarrow> run sched c')"

inductive reachable :: "string list \<Rightarrow> nat \<Rightarrow> config \<Rightarrow> bool" for domainsList n where
  start: "reachable domainsList n (init domainsList n)"
| step: "reachable domainsList n c \<Longrightarrow> fire t resp c = Some c' \<Longrightarrow> reachable domainsList n c'"

text \<open>Lines 236 to 238 of the summary.\<close>

record summary =
  Total :: int
  Successful :: int
  Failed :: int

definition summarise :: "config \<Rightarrow> summary" where
  "summarise c =
     \<lparr>Total = totalDomains (checker c),
      Successful = int (length (successfulDomains (checker c))),
      Failed = totalDomains (checker c) - int (length (successfulDomains (checker c)))\<rparr>"

section \<open>Quantities of a configuration\<close>

text \<open>The domains the feeder has not sent yet.\<close>

fun remaining :: "fstate \<Rightarrow> string list" where
  "remaining (FSend ds) = ds"
| "remaining FDone = []"

text \<open>A worker holds a domain from the receive until its result is sent.\<close>

fun wHolds :: "wstate \<Rightarrow> nat" where
  "wHolds WRecv = 0"
| "wHolds WExit = 0"
| "wHolds WDone = 0"
| "wHolds w = 1"

text \<open>A worker counts in the wait group until its \<^verbatim>\<open>wg.Done()\<close>.\<close>

fun wAlive :: "wstate \<Rightarrow> nat" where
  "wAlive WDone = 0"
| "wAlive w = 1"

text \<open>The program points between \<^verbatim>\<open>sc.mu.Lock()\<close> and \<^verbatim>\<open>sc.mu.Unlock()\<close>.\<close>

fun wInCS :: "wstate \<Rightarrow> bool" where
  "wInCS (WRead url code) = True"
| "wInCS (WWrite dm code tmp) = True"
| "wInCS (WUnlock dm code) = True"
| "wInCS w = False"

fun aInCS :: "astate \<Rightarrow> bool" where
  "aInCS (ARead r) = True"
| "aInCS (AWrite r tmp) = True"
| "aInCS (APct r) = True"
| "aInCS (AUnlock r p) = True"
| "aInCS a = False"

text \<open>The status code a worker carries towards the append is in the window.\<close>

fun wWindow :: "wstate \<Rightarrow> bool" where
  "wWindow (WLock url code) = inWindow code"
| "wWindow (WRead url code) = inWindow code"
| "wWindow (WWrite dm code tmp) = inWindow code"
| "wWindow (WUnlock dm code) = inWindow code"
| "wWindow w = True"

text \<open>The aggregator has received a result and not yet counted it; it has counted a
  result and not yet printed its line.\<close>

fun aPending :: "astate \<Rightarrow> nat" where
  "aPending (ALock r) = 1"
| "aPending (ARead r) = 1"
| "aPending (AWrite r tmp) = 1"
| "aPending a = 0"

fun aCounted :: "astate \<Rightarrow> nat" where
  "aCounted (APct r) = 1"
| "aCounted (AUnlock r p) = 1"
| "aCounted (APrint r p) = 1"
| "aCounted a = 0"

text \<open>A qualifying result: no error and a status code in the window. \<open>qual\<close> is the
  entry of \<^verbatim>\<open>successfulDomains\<close> that belongs to a result, if any.\<close>

definition qual :: "Result \<Rightarrow> string multiset" where
  "qual r = (if Error r = None \<and> inWindow (StatusCode r) then {#Domain r#} else {#})"

fun wAppended :: "wstate \<Rightarrow> string multiset" where
  "wAppended (WUnlock dm code) = {#dm#}"
| "wAppended (WSend r) = qual r"
| "wAppended w = {#}"

fun aHeld :: "astate \<Rightarrow> string multiset" where
  "aHeld (ALock r) = qual r"
| "aHeld (ARead r) = qual r"
| "aHeld (AWrite r tmp) = qual r"
| "aHeld (APct r) = qual r"
| "aHeld (AUnlock r p) = qual r"
| "aHeld (APrint r p) = qual r"
| "aHeld a = {#}"

fun lineQual :: "line \<Rightarrow> string multiset" where
  "lineQual (StatusLine d code p) = (if inWindow code then {#d#} else {#})"
| "lineQual (FailedLine d p) = {#}"

text \<open>The percentage a line shows.\<close>

fun lpct :: "line \<Rightarrow> real" where
  "lpct (FailedLine d p) = p"
| "lpct (StatusLine d code p) = p"

text \<open>The sum of \<open>f\<close> over all list positions but \<open>i\<close>.\<close>

definition others :: "('a \<Rightarrow> 'b::comm_monoid_add) \<Rightarrow> 'a list \<Rightarrow> nat \<Rightarrow> 'b" where
  "others f ws i = sum_list (map f (take i ws)) + sum_list (map f (drop (Suc i) ws))"

fun holds :: "config \<Rightarrow> thread \<Rightarrow> bool" where
  "holds c (Worker i) = (i < length (workers c) \<and> wInCS (workers c ! i))"
| "holds c Aggregator = aInCS (aggregator c)"
| "holds c t = False"

definition inv_mutex :: "config \<Rightarrow> bool" where
  "inv_mutex c \<longleftrightarrow>
     (\<forall>i<length (workers c). wInCS (workers c ! i) \<longrightarrow> mu c = Some (Worker i)) \<and>
     (aInCS (aggregator c) \<longrightarrow> mu c = Some Aggregator) \<and>
     (\<forall>t. mu c = Some t \<longrightarrow> holds c t)"

definition inv_life :: "config \<Rightarrow> bool" where
  "inv_life c \<longleftrightarrow>
     (domainsClosed c \<longleftrightarrow> feeder c = FDone) \<and>
     (resultsClosed c \<longleftrightarrow> closer c = CDone) \<and>
     (closer c \<noteq> CWait \<longrightarrow> wg c = 0) \<and>
     wg c = sum_list (map wAlive (workers c)) \<and>
     (\<forall>i<length (workers c). workers c ! i = WExit \<or> workers c ! i = WDone
        \<longrightarrow> domainsClosed c \<and> domainsCh c = []) \<and>
     (aggregator c = ADone \<longrightarrow> resultsClosed c \<and> resultsCh c = [])"

definition inv_shape :: "string list \<Rightarrow> nat \<Rightarrow> config \<Rightarrow> bool" where
  "inv_shape ds n c \<longleftrightarrow>
     length (workers c) = n \<and> totalDomains (checker c) = int (length ds)"

definition inv_count :: "string list \<Rightarrow> config \<Rightarrow> bool" where
  "inv_count ds c \<longleftrightarrow>
     int (length (remaining (feeder c)) + length (domainsCh c)
          + sum_list (map wHolds (workers c)) + length (resultsCh c)
          + aPending (aggregator c))
       + processedDomains (checker c) = int (length ds)"

definition inv_nolost :: "config \<Rightarrow> bool" where
  "inv_nolost c \<longleftrightarrow>
     (\<forall>i<length (workers c). \<forall>dm code tmp.
        workers c ! i = WWrite dm code tmp \<longrightarrow> tmp = successfulDomains (checker c)) \<and>
     (\<forall>r tmp. aggregator c = AWrite r tmp \<longrightarrow> tmp = processedDomains (checker c))"

definition inv_window :: "config \<Rightarrow> bool" where
  "inv_window c \<longleftrightarrow> (\<forall>i<length (workers c). wWindow (workers c ! i))"

definition inv_success :: "config \<Rightarrow> bool" where
  "inv_success c \<longleftrightarrow>
     mset (successfulDomains (checker c)) =
       sum_list (map wAppended (workers c)) + sum_list (map qual (resultsCh c))
       + aHeld (aggregator c) + sum_list (map lineQual (printed c))"

text \<open>The percentage after \<open>k\<close> of the domains of \<open>ds\<close>.\<close>

definition pctOf :: "string list \<Rightarrow> nat \<Rightarrow> real" where
  "pctOf ds k = real k / real (length ds) * 100"

definition inv_printed :: "string list \<Rightarrow> config \<Rightarrow> bool" where
  "inv_printed ds c \<longleftrightarrow>
     processedDomains (checker c) = int (length (printed c) + aCounted (aggregator c)) \<and>
     map lpct (printed c) = map (\<lambda>k. pctOf ds (Suc k)) [0..<length (printed c)] \<and>
     (\<forall>r p. aggregator c = AUnlock r p \<or> aggregator c = APrint r p
        \<longrightarrow> p = pctOf ds (Suc (length (printed c))))"

definition invariant :: "string list \<Rightarrow> nat \<Rightarrow> config \<Rightarrow> bool" where
  "invariant ds n c \<longleftrightarrow>
     inv_shape ds n c \<and> inv_mutex c \<and> inv_life c \<and> inv_count ds c \<and> inv_nolost c \<and>
     inv_window c \<and> inv_success c \<and> inv_printed ds c \<and> \<not> crashed c"






text \<open>A complete run for one domain and one worker, the network answering 200: the
  feeder sends and closes, the worker probes, appends, sends and ends, the closer closes
  the results, the aggregator counts and prints.\<close>

definition schedule1 :: "(thread \<times> response) list" where
  "schedule1 =
     [(Feeder, Inr 0), (Feeder, Inr 0), (Worker 0, Inr 0), (Worker 0, Inr 200),
      (Worker 0, Inr 0), (Worker 0, Inr 0), (Worker 0, Inr 0), (Worker 0, Inr 0),
      (Worker 0, Inr 0), (Worker 0, Inr 0), (Worker 0, Inr 0), (Closer, Inr 0),
      (Closer, Inr 0), (Aggregator, Inr 0), (Aggregator, Inr 0), (Aggregator, Inr 0),
      (Aggregator, Inr 0), (Aggregator, Inr 0), (Aggregator, Inr 0), (Aggregator, Inr 0),
      (Aggregator, Inr 0)]"

definition final1 :: config where
  "final1 =
     \<lparr>checker = \<lparr>successfulDomains = [''good.example''], totalDomains = 1,
                 processedDomains = 1\<rparr>,
      mu = None, domainsCh = [], domainsClosed = True, resultsCh = [],
      resultsClosed = True, wg = 0, feeder = FDone, workers = [WDone], closer = CDone,
      aggregator = ADone, printed = [StatusLine ''good.example'' 200 100],
      probes = [(''good.example'', Inr 200)], crashed = False\<rparr>"

text \<open>A printed line counts as qualifying when it is a status line whose code is in the
  window.\<close>

fun qualifying :: "line \<Rightarrow> bool" where
  "qualifying (StatusLine d code p) = inWindow code"
| "qualifying (FailedLine d p) = False"

text \<open>What a step does to the checker: nothing, one append to the current list, or one
  increment of the current counter.\<close>

definition appends :: "StatusChecker \<Rightarrow> StatusChecker \<Rightarrow> bool" where
  "appends s s' \<longleftrightarrow>
     (\<exists>dm. s' = s\<lparr>successfulDomains := successfulDomains s @ [dm]\<rparr>)"

definition increments :: "StatusChecker \<Rightarrow> StatusChecker \<Rightarrow> bool" where
  "increments s s' \<longleftrightarrow> s' = s\<lparr>processedDomains := processedDomains s + 1\<rparr>"

text \<open>The state of the run \<open>schedule1\<close> after six steps: the worker holds the mutex and
  is about to write the list it has read.\<close>

definition beforeWrite1 :: config where
  "beforeWrite1 =
     \<lparr>checker = \<lparr>successfulDomains = [], totalDomains = 1, processedDomains = 0\<rparr>,
      mu = Some (Worker 0), domainsCh = [], domainsClosed = True, resultsCh = [],
      resultsClosed = False, wg = 1, feeder = FDone,
      workers = [WWrite ''good.example'' 200 []], closer = CWait,
      aggregator = ARecv, printed = [], probes = [(''good.example'', Inr 200)],
      crashed = False\<rparr>"









fun report :: "string \<times> response \<Rightarrow> string \<times> int option" where
  "report (d, Inl err) = (normalize d, None)"
| "report (d, Inr code) =
     (if inWindow code then TrimPrefix (normalize d) ''https://'' else normalize d, Some code)"




section \<open>Properties of checkDomain\<close>





lemma checkDomain_ok:
  assumes "get (normalize d) = Inr code" and "inWindow code"
  shows "checkDomain get sc d =
           (\<lparr>Domain = TrimPrefix (normalize d) ''https://'', StatusCode = code, Error = None\<rparr>,
            sc\<lparr>successfulDomains :=
                 successfulDomains sc @ [TrimPrefix (normalize d) ''https://'']\<rparr>,
            [Get (normalize d), Lock, Append (TrimPrefix (normalize d) ''https://''), Unlock,
             BodyClose])"
  using assms by (simp add: checkDomain_def Let_def)

lemma checkDomain_outside:
  assumes "get (normalize d) = Inr code" and "\<not> inWindow code"
  shows "checkDomain get sc d =
           (\<lparr>Domain = normalize d, StatusCode = code, Error = None\<rparr>, sc,
            [Get (normalize d), BodyClose])"
  using assms by (simp add: checkDomain_def Let_def)

lemma checkDomain_failed:
  assumes "get (normalize d) = Inl err"
  shows "checkDomain get sc d =
           (\<lparr>Domain = normalize d, StatusCode = 0, Error = Some err\<rparr>, sc, [Get (normalize d)])"
  using assms by (simp add: checkDomain_def Let_def)

lemma HasPrefix_append: "HasPrefix (p @ s) p"
  by (simp add: HasPrefix_def)

lemma TrimPrefix_append: "TrimPrefix (p @ s) p = s"
  by (simp add: TrimPrefix_def HasPrefix_append)

lemma length_http: "length ''http'' = 4"
  by simp

lemma length_https: "length ''https://'' = 8"
  by simp

lemma HasPrefix_https_http: "HasPrefix d ''https://'' \<Longrightarrow> HasPrefix d ''http''"
proof -
  assume h: "HasPrefix d ''https://''"
  then have "take 8 d = ''https://''" and "8 \<le> length d"
    unfolding HasPrefix_def length_https by simp_all
  then have "take 4 (take 8 d) = ''http''" by simp
  then have "take 4 d = ''http''" by (simp add: min_def)
  with \<open>8 \<le> length d\<close> show ?thesis
    unfolding HasPrefix_def length_http by simp
qed

lemma TrimPrefix_normalize:
  "TrimPrefix (normalize d) ''https://'' =
     (if \<not> HasPrefix d ''http'' then d
      else if HasPrefix d ''https://'' then drop 8 d else d)"
proof (cases "HasPrefix d ''http''")
  case False
  then show ?thesis
    using TrimPrefix_append [of "''https://''" d] by (simp add: normalize_def)
next
  case True
  then show ?thesis
    unfolding normalize_def TrimPrefix_def length_https by simp
qed

text \<open>
  Claim C6, as the code has it. When the response's status code is in the window 1 to
  500, the domain of the emitted result is the requested URL with a leading
  \<^verbatim>\<open>https://\<close> removed, and that same string is what is appended to
  \<^verbatim>\<open>successfulDomains\<close>. Only \<^verbatim>\<open>https://\<close> is removed: a domain given without the
  \<^verbatim>\<open>http\<close> prefix comes back as it was given, a domain given with \<^verbatim>\<open>https://\<close>
  loses it, and any other domain starting with \<^verbatim>\<open>http\<close> (so one given with
  \<^verbatim>\<open>http://\<close>) keeps its scheme.
\<close>

theorem C6_domain_trimmed:
  assumes "get (normalize d) = Inr code" and "inWindow code"
  shows "Domain (fst (checkDomain get sc d)) = TrimPrefix (normalize d) ''https://''
       \<and> successfulDomains (fst (snd (checkDomain get sc d))) =
           successfulDomains sc @ [Domain (fst (checkDomain get sc d))]
       \<and> Domain (fst (checkDomain get sc d)) =
           (if \<not> HasPrefix d ''http'' then d
            else if HasPrefix d ''https://'' then drop 8 d else d)"
  using assms checkDomain_ok [of get d code sc] TrimPrefix_normalize [of d] by simp

theorem C6_domain_trimmed_witness:
  "Domain (fst (checkDomain (\<lambda>u. Inr 200) (NewStatusChecker 1) ''https://good.example''))
     = ''good.example''
   \<and> successfulDomains
       (fst (snd (checkDomain (\<lambda>u. Inr 200) (NewStatusChecker 1) ''https://good.example'')))
     = [''good.example'']"
proof -
  have w: "inWindow 200" by (simp add: inWindow_def)
  have h: "HasPrefix ''https://good.example'' ''http''"
    "HasPrefix ''https://good.example'' ''https://''"
    by (simp_all add: HasPrefix_def)
  note t = C6_domain_trimmed [of "\<lambda>u. Inr 200" "''https://good.example''" 200
      "NewStatusChecker 1", OF refl w]
  from t [THEN conjunct2, THEN conjunct2] have "Domain (fst (checkDomain (\<lambda>u. Inr 200) (NewStatusChecker 1)
      ''https://good.example'')) = drop 8 ''https://good.example''"
    using h by (simp del: drop_Cons_numeral)
  moreover from t [THEN conjunct2, THEN conjunct1] have "successfulDomains (fst (snd (checkDomain (\<lambda>u. Inr 200)
      (NewStatusChecker 1) ''https://good.example''))) =
      [Domain (fst (checkDomain (\<lambda>u. Inr 200) (NewStatusChecker 1) ''https://good.example''))]"
    by (simp add: NewStatusChecker_def)
  ultimately show ?thesis by simp
qed

text \<open>
  Claim C6 as the spec states it fails for a domain given with \<^verbatim>\<open>http://\<close>: the
  response is in the window, and the emitted domain and the appended entry still carry the
  scheme.
\<close>

theorem C6_http_scheme_kept:
  "inWindow 200
   \<and> Domain (fst (checkDomain (\<lambda>u. Inr 200) (NewStatusChecker 1) ''http://good.example''))
       = ''http://good.example''
   \<and> successfulDomains
       (fst (snd (checkDomain (\<lambda>u. Inr 200) (NewStatusChecker 1) ''http://good.example'')))
       = [''http://good.example'']"
  by (simp add: checkDomain_def normalize_def HasPrefix_def TrimPrefix_def inWindow_def Let_def
      NewStatusChecker_def)

text \<open>
  Claim C7, as the code has it. For a probe that gets a response, \<^verbatim>\<open>checkDomain\<close>
  closes the response body as its last action before it returns the result (the deferred
  \<^verbatim>\<open>resp.Body.Close()\<close>), and it never reads the body.
\<close>

theorem C7_body_closed_not_read:
  assumes "get (normalize d) = Inr code"
  shows "last (snd (snd (checkDomain get sc d))) = BodyClose
       \<and> BodyRead \<notin> set (snd (snd (checkDomain get sc d)))"
  using assms by (simp add: checkDomain_def Let_def)

theorem C7_body_closed_not_read_witness:
  "last (snd (snd (checkDomain (\<lambda>u. Inr 501) (NewStatusChecker 1) ''weird.example''))) = BodyClose
   \<and> BodyRead \<notin> set (snd (snd (checkDomain (\<lambda>u. Inr 501) (NewStatusChecker 1) ''weird.example'')))"
  using C7_body_closed_not_read [of "\<lambda>u. Inr 501" "''weird.example''" 501 "NewStatusChecker 1"]
  by simp

text \<open>
  Claim C7 as the spec states it fails: on a response with status 200 the events of
  \<^verbatim>\<open>checkDomain\<close> are the GET, the locked append and the close of the body; no read
  of the body is among them.
\<close>

theorem C7_no_body_read:
  "snd (snd (checkDomain (\<lambda>u. Inr 200) (NewStatusChecker 1) ''good.example'')) =
     [Get ''https://good.example'', Lock, Append ''good.example'', Unlock, BodyClose]
   \<and> BodyRead \<notin> set (snd (snd (checkDomain (\<lambda>u. Inr 200) (NewStatusChecker 1) ''good.example'')))"
  by (simp add: checkDomain_def normalize_def HasPrefix_def TrimPrefix_def inWindow_def Let_def
      NewStatusChecker_def)

section \<open>The steps of the goroutines, case by case\<close>

lemma setWorker_simps:
  "workers (setWorker i w c) = (workers c)[i := w]"
  "checker (setWorker i w c) = checker c"
  "mu (setWorker i w c) = mu c"
  "domainsCh (setWorker i w c) = domainsCh c"
  "domainsClosed (setWorker i w c) = domainsClosed c"
  "resultsCh (setWorker i w c) = resultsCh c"
  "resultsClosed (setWorker i w c) = resultsClosed c"
  "wg (setWorker i w c) = wg c"
  "feeder (setWorker i w c) = feeder c"
  "closer (setWorker i w c) = closer c"
  "aggregator (setWorker i w c) = aggregator c"
  "printed (setWorker i w c) = printed c"
  "probes (setWorker i w c) = probes c"
  "crashed (setWorker i w c) = crashed c"
  by (simp_all add: setWorker_def)

lemma feederStep_cases [consumes 1, case_names fSend fClose fCrash]:
  assumes "feederStep c = Some c'"
  obtains
    (fSend) d ds where "feeder c = FSend (d # ds)" "\<not> domainsClosed c"
      "length (domainsCh c) < bufferSize"
      "c' = c\<lparr>domainsCh := domainsCh c @ [d], feeder := FSend ds\<rparr>"
  | (fClose) "feeder c = FSend []" "\<not> domainsClosed c"
      "c' = c\<lparr>domainsClosed := True, feeder := FDone\<rparr>"
  | (fCrash) ds where "feeder c = FSend ds" "domainsClosed c" "c' = c\<lparr>crashed := True\<rparr>"
  using assms unfolding feederStep_def crash_def
  by (simp split: fstate.splits list.splits if_splits)

lemma closerStep_cases [consumes 1, case_names cWait cClose cCrash]:
  assumes "closerStep c = Some c'"
  obtains
    (cWait) "closer c = CWait" "wg c = 0" "c' = c\<lparr>closer := CClose\<rparr>"
  | (cClose) "closer c = CClose" "\<not> resultsClosed c"
      "c' = c\<lparr>resultsClosed := True, closer := CDone\<rparr>"
  | (cCrash) "closer c = CClose" "resultsClosed c" "c' = c\<lparr>crashed := True\<rparr>"
  using assms unfolding closerStep_def crash_def
  by (simp split: cstate.splits if_splits)

lemma aggregatorStep_cases [consumes 1, case_names aRecv aFinish aLock aRead aWrite aPct aUnlock aPrint aCrash]:
  assumes "aggregatorStep c = Some c'"
  obtains
    (aRecv) r rs where "aggregator c = ARecv" "resultsCh c = r # rs"
      "c' = c\<lparr>resultsCh := rs, aggregator := ALock r\<rparr>"
  | (aFinish) "aggregator c = ARecv" "resultsCh c = []" "resultsClosed c"
      "c' = c\<lparr>aggregator := ADone\<rparr>"
  | (aLock) r where "aggregator c = ALock r" "mu c = None"
      "c' = c\<lparr>mu := Some Aggregator, aggregator := ARead r\<rparr>"
  | (aRead) r where "aggregator c = ARead r"
      "c' = c\<lparr>aggregator := AWrite r (processedDomains (checker c))\<rparr>"
  | (aWrite) r tmp where "aggregator c = AWrite r tmp"
      "c' = c\<lparr>checker := (checker c)\<lparr>processedDomains := tmp + 1\<rparr>, aggregator := APct r\<rparr>"
  | (aPct) r where "aggregator c = APct r"
      "c' = c\<lparr>aggregator := AUnlock r (percentage (checker c))\<rparr>"
  | (aUnlock) r p where "aggregator c = AUnlock r p" "mu c \<noteq> None"
      "c' = c\<lparr>mu := None, aggregator := APrint r p\<rparr>"
  | (aPrint) r p where "aggregator c = APrint r p"
      "c' = c\<lparr>printed := printed c @ [printLine r p], aggregator := ARecv\<rparr>"
  | (aCrash) r p where "aggregator c = AUnlock r p" "mu c = None" "c' = c\<lparr>crashed := True\<rparr>"
proof (cases "aggregator c")
  case ARecv
  with assms aRecv aFinish show ?thesis
    by (cases "resultsCh c") (simp_all add: aggregatorStep_def split: if_splits)
next
  case (ALock r)
  with assms aLock show ?thesis
    by (cases "mu c") (simp_all add: aggregatorStep_def)
next
  case (ARead r)
  with assms aRead show ?thesis by (simp add: aggregatorStep_def)
next
  case (AWrite r tmp)
  with assms aWrite show ?thesis by (simp add: aggregatorStep_def)
next
  case (APct r)
  with assms aPct show ?thesis by (simp add: aggregatorStep_def)
next
  case (AUnlock r p)
  with assms aUnlock aCrash show ?thesis
    by (cases "mu c = None") (simp_all add: aggregatorStep_def crash_def)
next
  case (APrint r p)
  with assms aPrint show ?thesis by (simp add: aggregatorStep_def)
next
  case ADone
  with assms show ?thesis by (simp add: aggregatorStep_def)
qed

lemma workerStep_cases [consumes 1, case_names wRecv wLeave wGetErr wGetIn wGetOut wLock wRead wWrite wUnlock wSend wFinish wCrashU wCrashS wCrashW]:
  assumes "workerStep i resp c = Some c'"
  obtains
    (wRecv) d ds where "workers c ! i = WRecv" "domainsCh c = d # ds"
      "c' = setWorker i (WGet d) (c\<lparr>domainsCh := ds\<rparr>)"
  | (wLeave) "workers c ! i = WRecv" "domainsCh c = []" "domainsClosed c"
      "c' = setWorker i WExit c"
  | (wGetErr) d err where "workers c ! i = WGet d" "resp = Inl err"
      "c' = setWorker i (WSend \<lparr>Domain = normalize d, StatusCode = 0, Error = Some err\<rparr>)
         (c\<lparr>probes := probes c @ [(d, resp)]\<rparr>)"
  | (wGetIn) d code where "workers c ! i = WGet d" "resp = Inr code" "inWindow code"
      "c' = setWorker i (WLock (normalize d) code) (c\<lparr>probes := probes c @ [(d, resp)]\<rparr>)"
  | (wGetOut) d code where "workers c ! i = WGet d" "resp = Inr code" "\<not> inWindow code"
      "c' = setWorker i (WSend \<lparr>Domain = normalize d, StatusCode = code, Error = None\<rparr>)
         (c\<lparr>probes := probes c @ [(d, resp)]\<rparr>)"
  | (wLock) url code where "workers c ! i = WLock url code" "mu c = None"
      "c' = setWorker i (WRead url code) (c\<lparr>mu := Some (Worker i)\<rparr>)"
  | (wRead) url code where "workers c ! i = WRead url code"
      "c' = setWorker i
         (WWrite (TrimPrefix url ''https://'') code (successfulDomains (checker c))) c"
  | (wWrite) dm code tmp where "workers c ! i = WWrite dm code tmp"
      "c' = setWorker i (WUnlock dm code)
         (c\<lparr>checker := (checker c)\<lparr>successfulDomains := tmp @ [dm]\<rparr>\<rparr>)"
  | (wUnlock) dm code where "workers c ! i = WUnlock dm code" "mu c \<noteq> None"
      "c' = setWorker i (WSend \<lparr>Domain = dm, StatusCode = code, Error = None\<rparr>)
         (c\<lparr>mu := None\<rparr>)"
  | (wSend) r where "workers c ! i = WSend r" "\<not> resultsClosed c"
      "length (resultsCh c) < bufferSize"
      "c' = setWorker i WRecv (c\<lparr>resultsCh := resultsCh c @ [r]\<rparr>)"
  | (wFinish) "workers c ! i = WExit" "wg c \<noteq> 0"
      "c' = setWorker i WDone (c\<lparr>wg := wg c - 1\<rparr>)"
  | (wCrashU) dm code where "workers c ! i = WUnlock dm code" "mu c = None"
      "c' = c\<lparr>crashed := True\<rparr>"
  | (wCrashS) r where "workers c ! i = WSend r" "resultsClosed c" "c' = c\<lparr>crashed := True\<rparr>"
  | (wCrashW) "workers c ! i = WExit" "wg c = 0" "c' = c\<lparr>crashed := True\<rparr>"
proof (cases "workers c ! i")
  case WRecv
  with assms wRecv wLeave show ?thesis
    by (cases "domainsCh c") (simp_all add: workerStep_def split: if_splits)
next
  case (WGet d)
  show ?thesis
  proof (cases resp)
    case (Inl err)
    with assms WGet wGetErr show ?thesis by (simp add: workerStep_def)
  next
    case (Inr code)
    with assms WGet wGetIn wGetOut show ?thesis
      by (cases "inWindow code") (simp_all add: workerStep_def)
  qed
next
  case (WLock url code)
  with assms wLock show ?thesis
    by (cases "mu c") (simp_all add: workerStep_def)
next
  case (WRead url code)
  with assms wRead show ?thesis by (simp add: workerStep_def)
next
  case (WWrite dm code tmp)
  with assms wWrite show ?thesis by (simp add: workerStep_def)
next
  case (WUnlock dm code)
  with assms wUnlock wCrashU show ?thesis
    by (cases "mu c = None") (simp_all add: workerStep_def crash_def)
next
  case (WSend r)
  with assms wSend wCrashS show ?thesis
    by (cases "resultsClosed c") (simp_all add: workerStep_def crash_def split: if_splits)
next
  case WExit
  with assms wFinish wCrashW show ?thesis
    by (cases "wg c = 0") (simp_all add: workerStep_def crash_def)
next
  case WDone
  with assms show ?thesis by (simp add: workerStep_def)
qed

lemma holds_frame:
  "workers c' = workers c \<Longrightarrow> aggregator c' = aggregator c \<Longrightarrow> holds c' t = holds c t"
  by (cases t) simp_all

lemma inv_mutex_frame:
  "workers c' = workers c \<Longrightarrow> aggregator c' = aggregator c \<Longrightarrow> mu c' = mu c \<Longrightarrow>
   inv_mutex c \<Longrightarrow> inv_mutex c'"
  by (simp add: inv_mutex_def holds_frame [of c' c])

lemma feeder_mutex:
  assumes "feederStep c = Some c'" and "inv_mutex c"
  shows "inv_mutex c'"
  using assms(1)
proof (cases rule: feederStep_cases)
  case (fSend d ds)
  then show ?thesis using assms(2) by (intro inv_mutex_frame [of c' c]) simp_all
next
  case fClose
  then show ?thesis using assms(2) by (intro inv_mutex_frame [of c' c]) simp_all
next
  case (fCrash ds)
  then show ?thesis using assms(2) by (intro inv_mutex_frame [of c' c]) simp_all
qed

lemma closer_mutex:
  assumes "closerStep c = Some c'" and "inv_mutex c"
  shows "inv_mutex c'"
  using assms(1)
proof (cases rule: closerStep_cases)
  case cWait
  then show ?thesis using assms(2) by (intro inv_mutex_frame [of c' c]) simp_all
next
  case cClose
  then show ?thesis using assms(2) by (intro inv_mutex_frame [of c' c]) simp_all
next
  case cCrash
  then show ?thesis using assms(2) by (intro inv_mutex_frame [of c' c]) simp_all
qed

lemma holds_same:
  assumes "length (workers c') = length (workers c)"
    and "\<forall>k<length (workers c). wInCS (workers c' ! k) = wInCS (workers c ! k)"
    and "aInCS (aggregator c') = aInCS (aggregator c)"
  shows "holds c' t = holds c t"
  using assms by (cases t) auto

lemma inv_mutex_same:
  assumes "length (workers c') = length (workers c)"
    and "\<forall>k<length (workers c). wInCS (workers c' ! k) = wInCS (workers c ! k)"
    and "aInCS (aggregator c') = aInCS (aggregator c)"
    and "mu c' = mu c"
    and "inv_mutex c"
  shows "inv_mutex c'"
  using assms(1,2,3,4,5) holds_same [OF assms(1,2,3)]
  by (simp add: inv_mutex_def)

lemma inv_mutex_agg_same:
  assumes "workers c' = workers c" and "aInCS (aggregator c') = aInCS (aggregator c)"
    and "mu c' = mu c" and "inv_mutex c"
  shows "inv_mutex c'"
  using assms by (intro inv_mutex_same [of c' c]) simp_all

lemma inv_mutex_worker_same:
  assumes "i < length (workers c)" and "workers c' = (workers c)[i := w]"
    and "wInCS w = wInCS (workers c ! i)"
    and "aggregator c' = aggregator c" and "mu c' = mu c" and "inv_mutex c"
  shows "inv_mutex c'"
  using assms by (intro inv_mutex_same [of c' c]) (simp_all add: nth_list_update)

lemma aggregator_mutex:
  assumes "aggregatorStep c = Some c'" and "inv_mutex c"
  shows "inv_mutex c'"
  using assms(1)
proof (cases rule: aggregatorStep_cases)
  case (aRecv r rs)
  then show ?thesis using assms(2) by (intro inv_mutex_agg_same [of c' c]) simp_all
next
  case aFinish
  then show ?thesis using assms(2) by (intro inv_mutex_agg_same [of c' c]) simp_all
next
  case (aLock r)
  have "\<forall>i<length (workers c). \<not> wInCS (workers c ! i)"
    using assms(2) aLock(2) by (auto simp: inv_mutex_def)
  then show ?thesis using aLock by (simp add: inv_mutex_def)
next
  case (aRead r)
  then show ?thesis using assms(2) by (intro inv_mutex_agg_same [of c' c]) simp_all
next
  case (aWrite r tmp)
  then show ?thesis using assms(2) by (intro inv_mutex_agg_same [of c' c]) simp_all
next
  case (aPct r)
  then show ?thesis using assms(2) by (intro inv_mutex_agg_same [of c' c]) simp_all
next
  case (aUnlock r p)
  have "mu c = Some Aggregator" using assms(2) aUnlock(1) by (simp add: inv_mutex_def)
  then have "\<forall>i<length (workers c). \<not> wInCS (workers c ! i)"
    using assms(2) by (auto simp: inv_mutex_def)
  then show ?thesis using aUnlock by (simp add: inv_mutex_def)
next
  case (aPrint r p)
  then show ?thesis using assms(2) by (intro inv_mutex_agg_same [of c' c]) simp_all
next
  case (aCrash r p)
  then show ?thesis using assms(2) by (intro inv_mutex_agg_same [of c' c]) simp_all
qed

lemma worker_mutex:
  assumes "workerStep i resp c = Some c'" and "i < length (workers c)" and "inv_mutex c"
  shows "inv_mutex c'"
  using assms(1)
proof (cases rule: workerStep_cases)
  case (wRecv d ds)
  then show ?thesis using assms(2,3)
    by (intro inv_mutex_worker_same [of i c c' "WGet d"]) (simp_all add: setWorker_simps)
next
  case wLeave
  then show ?thesis using assms(2,3)
    by (intro inv_mutex_worker_same [of i c c' WExit]) (simp_all add: setWorker_simps)
next
  case (wGetErr d err)
  then show ?thesis using assms(2,3)
    by (intro inv_mutex_worker_same [of i c c' "WSend \<lparr>Domain = normalize d, StatusCode = 0, Error = Some err\<rparr>"])
      (simp_all add: setWorker_simps)
next
  case (wGetIn d code)
  then show ?thesis using assms(2,3)
    by (intro inv_mutex_worker_same [of i c c' "WLock (normalize d) code"])
      (simp_all add: setWorker_simps)
next
  case (wGetOut d code)
  then show ?thesis using assms(2,3)
    by (intro inv_mutex_worker_same [of i c c' "WSend \<lparr>Domain = normalize d, StatusCode = code, Error = None\<rparr>"])
      (simp_all add: setWorker_simps)
next
  case (wLock url code)
  have a: "\<forall>k<length (workers c). \<not> wInCS (workers c ! k)"
    using assms(3) wLock(2) by (auto simp: inv_mutex_def)
  have b: "\<not> aInCS (aggregator c)"
    using assms(3) wLock(2) by (auto simp: inv_mutex_def)
  show ?thesis using a b wLock assms(2)
    by (simp add: inv_mutex_def setWorker_simps nth_list_update)
next
  case (wRead url code)
  then show ?thesis using assms(2,3)
    by (intro inv_mutex_worker_same [of i c c' "WWrite (TrimPrefix url ''https://'') code (successfulDomains (checker c))"])
      (simp_all add: setWorker_simps)
next
  case (wWrite dm code tmp)
  then show ?thesis using assms(2,3)
    by (intro inv_mutex_worker_same [of i c c' "WUnlock dm code"])
      (simp_all add: setWorker_simps)
next
  case (wUnlock dm code)
  have m: "mu c = Some (Worker i)"
    using assms(2,3) wUnlock(1) by (simp add: inv_mutex_def)
  have a: "\<forall>k<length (workers c). k \<noteq> i \<longrightarrow> \<not> wInCS (workers c ! k)"
    using assms(3) m by (auto simp: inv_mutex_def)
  have b: "\<not> aInCS (aggregator c)"
    using assms(3) m by (auto simp: inv_mutex_def)
  show ?thesis using a b wUnlock assms(2)
    by (simp add: inv_mutex_def setWorker_simps nth_list_update)
next
  case (wSend r)
  then show ?thesis using assms(2,3)
    by (intro inv_mutex_worker_same [of i c c' WRecv]) (simp_all add: setWorker_simps)
next
  case wFinish
  then show ?thesis using assms(2,3)
    by (intro inv_mutex_worker_same [of i c c' WDone]) (simp_all add: setWorker_simps)
next
  case (wCrashU dm code)
  then show ?thesis using assms(3) by (intro inv_mutex_agg_same [of c' c]) simp_all
next
  case (wCrashS r)
  then show ?thesis using assms(3) by (intro inv_mutex_agg_same [of c' c]) simp_all
next
  case wCrashW
  then show ?thesis using assms(3) by (intro inv_mutex_agg_same [of c' c]) simp_all
qed

lemma sum_list_split:
  assumes "i < length ws"
  shows "sum_list (map f ws) = f (ws ! i) + others f ws i"
proof -
  from assms have "ws = take i ws @ ws ! i # drop (Suc i) ws" by (rule id_take_nth_drop)
  then have "sum_list (map f ws) = sum_list (map f (take i ws @ ws ! i # drop (Suc i) ws))"
    by simp
  then show ?thesis by (simp add: others_def add_ac)
qed

lemma sum_list_update_others:
  "i < length ws \<Longrightarrow> sum_list (map f (ws[i := w])) = f w + others f ws i"
  by (simp add: upd_conv_take_nth_drop others_def add_ac)

lemma feeder_life:
  assumes "feederStep c = Some c'" and "inv_life c"
  shows "inv_life c'"
  using assms(1)
proof (cases rule: feederStep_cases)
  case (fSend d ds)
  then show ?thesis using assms(2) by (auto simp: inv_life_def)
next
  case fClose
  then show ?thesis using assms(2) by (auto simp: inv_life_def)
next
  case (fCrash ds)
  then show ?thesis using assms(2) by (auto simp: inv_life_def)
qed

lemma closer_life:
  assumes "closerStep c = Some c'" and "inv_life c"
  shows "inv_life c'"
  using assms(1)
proof (cases rule: closerStep_cases)
  case cWait
  then show ?thesis using assms(2) by (auto simp: inv_life_def)
next
  case cClose
  then show ?thesis using assms(2) by (auto simp: inv_life_def)
next
  case cCrash
  then show ?thesis using assms(2) by (auto simp: inv_life_def)
qed

lemma aggregator_life:
  assumes "aggregatorStep c = Some c'" and "inv_life c"
  shows "inv_life c'"
  using assms(1)
proof (cases rule: aggregatorStep_cases)
  case (aRecv r rs)
  then show ?thesis using assms(2) by (auto simp: inv_life_def)
next
  case aFinish
  then show ?thesis using assms(2) by (auto simp: inv_life_def)
next
  case (aLock r)
  then show ?thesis using assms(2) by (auto simp: inv_life_def)
next
  case (aRead r)
  then show ?thesis using assms(2) by (auto simp: inv_life_def)
next
  case (aWrite r tmp)
  then show ?thesis using assms(2) by (auto simp: inv_life_def)
next
  case (aPct r)
  then show ?thesis using assms(2) by (auto simp: inv_life_def)
next
  case (aUnlock r p)
  then show ?thesis using assms(2) by (auto simp: inv_life_def)
next
  case (aPrint r p)
  then show ?thesis using assms(2) by (auto simp: inv_life_def)
next
  case (aCrash r p)
  then show ?thesis using assms(2) by (auto simp: inv_life_def)
qed

lemma worker_life:
  assumes "workerStep i resp c = Some c'" and "i < length (workers c)" and "inv_life c"
  shows "inv_life c'"
  using assms(1)
proof (cases rule: workerStep_cases)
  case (wRecv d ds)
  then show ?thesis
    using assms(2,3) sum_list_split [of i "workers c" wAlive]
    by (auto simp: inv_life_def setWorker_simps sum_list_update_others nth_list_update)
next
  case wLeave
  then show ?thesis
    using assms(2,3) sum_list_split [of i "workers c" wAlive]
    by (auto simp: inv_life_def setWorker_simps sum_list_update_others nth_list_update)
next
  case (wGetErr d err)
  then show ?thesis
    using assms(2,3) sum_list_split [of i "workers c" wAlive]
    by (auto simp: inv_life_def setWorker_simps sum_list_update_others nth_list_update)
next
  case (wGetIn d code)
  then show ?thesis
    using assms(2,3) sum_list_split [of i "workers c" wAlive]
    by (auto simp: inv_life_def setWorker_simps sum_list_update_others nth_list_update)
next
  case (wGetOut d code)
  then show ?thesis
    using assms(2,3) sum_list_split [of i "workers c" wAlive]
    by (auto simp: inv_life_def setWorker_simps sum_list_update_others nth_list_update)
next
  case (wLock url code)
  then show ?thesis
    using assms(2,3) sum_list_split [of i "workers c" wAlive]
    by (auto simp: inv_life_def setWorker_simps sum_list_update_others nth_list_update)
next
  case (wRead url code)
  then show ?thesis
    using assms(2,3) sum_list_split [of i "workers c" wAlive]
    by (auto simp: inv_life_def setWorker_simps sum_list_update_others nth_list_update)
next
  case (wWrite dm code tmp)
  then show ?thesis
    using assms(2,3) sum_list_split [of i "workers c" wAlive]
    by (auto simp: inv_life_def setWorker_simps sum_list_update_others nth_list_update)
next
  case (wUnlock dm code)
  then show ?thesis
    using assms(2,3) sum_list_split [of i "workers c" wAlive]
    by (auto simp: inv_life_def setWorker_simps sum_list_update_others nth_list_update)
next
  case (wSend r)
  then show ?thesis
    using assms(2,3) sum_list_split [of i "workers c" wAlive]
    by (auto simp: inv_life_def setWorker_simps sum_list_update_others nth_list_update)
next
  case wFinish
  then show ?thesis
    using assms(2,3) sum_list_split [of i "workers c" wAlive]
    by (auto simp: inv_life_def setWorker_simps sum_list_update_others nth_list_update)
next
  case (wCrashU dm code)
  then show ?thesis
    using assms(2,3) sum_list_split [of i "workers c" wAlive]
    by (auto simp: inv_life_def setWorker_simps sum_list_update_others nth_list_update)
next
  case (wCrashS r)
  then show ?thesis
    using assms(2,3) sum_list_split [of i "workers c" wAlive]
    by (auto simp: inv_life_def setWorker_simps sum_list_update_others nth_list_update)
next
  case wCrashW
  then show ?thesis
    using assms(2,3) sum_list_split [of i "workers c" wAlive]
    by (auto simp: inv_life_def setWorker_simps sum_list_update_others nth_list_update)
qed

lemma feeder_shape:
  assumes "feederStep c = Some c'" and "inv_shape ds n c"
  shows "inv_shape ds n c'"
  using assms(1)
proof (cases rule: feederStep_cases)
  case (fSend d ds)
  then show ?thesis using assms(2) by (simp add: inv_shape_def)
next
  case fClose
  then show ?thesis using assms(2) by (simp add: inv_shape_def)
next
  case (fCrash ds)
  then show ?thesis using assms(2) by (simp add: inv_shape_def)
qed

lemma closer_shape:
  assumes "closerStep c = Some c'" and "inv_shape ds n c"
  shows "inv_shape ds n c'"
  using assms(1)
proof (cases rule: closerStep_cases)
  case cWait
  then show ?thesis using assms(2) by (simp add: inv_shape_def)
next
  case cClose
  then show ?thesis using assms(2) by (simp add: inv_shape_def)
next
  case cCrash
  then show ?thesis using assms(2) by (simp add: inv_shape_def)
qed

lemma aggregator_shape:
  assumes "aggregatorStep c = Some c'" and "inv_shape ds n c"
  shows "inv_shape ds n c'"
  using assms(1)
proof (cases rule: aggregatorStep_cases)
  case (aRecv r rs)
  then show ?thesis using assms(2) by (simp add: inv_shape_def)
next
  case aFinish
  then show ?thesis using assms(2) by (simp add: inv_shape_def)
next
  case (aLock r)
  then show ?thesis using assms(2) by (simp add: inv_shape_def)
next
  case (aRead r)
  then show ?thesis using assms(2) by (simp add: inv_shape_def)
next
  case (aWrite r tmp)
  then show ?thesis using assms(2) by (simp add: inv_shape_def)
next
  case (aPct r)
  then show ?thesis using assms(2) by (simp add: inv_shape_def)
next
  case (aUnlock r p)
  then show ?thesis using assms(2) by (simp add: inv_shape_def)
next
  case (aPrint r p)
  then show ?thesis using assms(2) by (simp add: inv_shape_def)
next
  case (aCrash r p)
  then show ?thesis using assms(2) by (simp add: inv_shape_def)
qed

lemma worker_shape:
  assumes "workerStep i resp c = Some c'" and "inv_shape ds n c"
  shows "inv_shape ds n c'"
  using assms(1)
proof (cases rule: workerStep_cases)
  case (wRecv d ds)
  then show ?thesis using assms(2) by (simp add: inv_shape_def setWorker_simps)
next
  case wLeave
  then show ?thesis using assms(2) by (simp add: inv_shape_def setWorker_simps)
next
  case (wGetErr d err)
  then show ?thesis using assms(2) by (simp add: inv_shape_def setWorker_simps)
next
  case (wGetIn d code)
  then show ?thesis using assms(2) by (simp add: inv_shape_def setWorker_simps)
next
  case (wGetOut d code)
  then show ?thesis using assms(2) by (simp add: inv_shape_def setWorker_simps)
next
  case (wLock url code)
  then show ?thesis using assms(2) by (simp add: inv_shape_def setWorker_simps)
next
  case (wRead url code)
  then show ?thesis using assms(2) by (simp add: inv_shape_def setWorker_simps)
next
  case (wWrite dm code tmp)
  then show ?thesis using assms(2) by (simp add: inv_shape_def setWorker_simps)
next
  case (wUnlock dm code)
  then show ?thesis using assms(2) by (simp add: inv_shape_def setWorker_simps)
next
  case (wSend r)
  then show ?thesis using assms(2) by (simp add: inv_shape_def setWorker_simps)
next
  case wFinish
  then show ?thesis using assms(2) by (simp add: inv_shape_def setWorker_simps)
next
  case (wCrashU dm code)
  then show ?thesis using assms(2) by (simp add: inv_shape_def setWorker_simps)
next
  case (wCrashS r)
  then show ?thesis using assms(2) by (simp add: inv_shape_def setWorker_simps)
next
  case wCrashW
  then show ?thesis using assms(2) by (simp add: inv_shape_def setWorker_simps)
qed

lemma feeder_count:
  assumes "feederStep c = Some c'" and "inv_count ds c"
  shows "inv_count ds c'"
  using assms(1)
proof (cases rule: feederStep_cases)
  case (fSend d ds)
  then show ?thesis using assms(2) by (simp add: inv_count_def)
next
  case fClose
  then show ?thesis using assms(2) by (simp add: inv_count_def)
next
  case (fCrash ds)
  then show ?thesis using assms(2) by (simp add: inv_count_def)
qed

lemma closer_count:
  assumes "closerStep c = Some c'" and "inv_count ds c"
  shows "inv_count ds c'"
  using assms(1)
proof (cases rule: closerStep_cases)
  case cWait
  then show ?thesis using assms(2) by (simp add: inv_count_def)
next
  case cClose
  then show ?thesis using assms(2) by (simp add: inv_count_def)
next
  case cCrash
  then show ?thesis using assms(2) by (simp add: inv_count_def)
qed

lemma aggregator_count:
  assumes "aggregatorStep c = Some c'" and "inv_count ds c" and "inv_nolost c"
  shows "inv_count ds c'"
  using assms(1)
proof (cases rule: aggregatorStep_cases)
  case (aRecv r rs)
  then show ?thesis using assms(2,3) by (simp add: inv_count_def inv_nolost_def)
next
  case aFinish
  then show ?thesis using assms(2,3) by (simp add: inv_count_def inv_nolost_def)
next
  case (aLock r)
  then show ?thesis using assms(2,3) by (simp add: inv_count_def inv_nolost_def)
next
  case (aRead r)
  then show ?thesis using assms(2,3) by (simp add: inv_count_def inv_nolost_def)
next
  case (aWrite r tmp)
  then show ?thesis using assms(2,3) by (simp add: inv_count_def inv_nolost_def)
next
  case (aPct r)
  then show ?thesis using assms(2,3) by (simp add: inv_count_def inv_nolost_def)
next
  case (aUnlock r p)
  then show ?thesis using assms(2,3) by (simp add: inv_count_def inv_nolost_def)
next
  case (aPrint r p)
  then show ?thesis using assms(2,3) by (simp add: inv_count_def inv_nolost_def)
next
  case (aCrash r p)
  then show ?thesis using assms(2,3) by (simp add: inv_count_def inv_nolost_def)
qed

lemma worker_count:
  assumes "workerStep i resp c = Some c'" and "i < length (workers c)" and "inv_count ds c"
  shows "inv_count ds c'"
  using assms(1)
proof (cases rule: workerStep_cases)
  case (wRecv d ds)
  then show ?thesis
    using assms(2,3) sum_list_split [of i "workers c" wHolds]
    by (simp add: inv_count_def setWorker_simps sum_list_update_others)
next
  case wLeave
  then show ?thesis
    using assms(2,3) sum_list_split [of i "workers c" wHolds]
    by (simp add: inv_count_def setWorker_simps sum_list_update_others)
next
  case (wGetErr d err)
  then show ?thesis
    using assms(2,3) sum_list_split [of i "workers c" wHolds]
    by (simp add: inv_count_def setWorker_simps sum_list_update_others)
next
  case (wGetIn d code)
  then show ?thesis
    using assms(2,3) sum_list_split [of i "workers c" wHolds]
    by (simp add: inv_count_def setWorker_simps sum_list_update_others)
next
  case (wGetOut d code)
  then show ?thesis
    using assms(2,3) sum_list_split [of i "workers c" wHolds]
    by (simp add: inv_count_def setWorker_simps sum_list_update_others)
next
  case (wLock url code)
  then show ?thesis
    using assms(2,3) sum_list_split [of i "workers c" wHolds]
    by (simp add: inv_count_def setWorker_simps sum_list_update_others)
next
  case (wRead url code)
  then show ?thesis
    using assms(2,3) sum_list_split [of i "workers c" wHolds]
    by (simp add: inv_count_def setWorker_simps sum_list_update_others)
next
  case (wWrite dm code tmp)
  then show ?thesis
    using assms(2,3) sum_list_split [of i "workers c" wHolds]
    by (simp add: inv_count_def setWorker_simps sum_list_update_others)
next
  case (wUnlock dm code)
  then show ?thesis
    using assms(2,3) sum_list_split [of i "workers c" wHolds]
    by (simp add: inv_count_def setWorker_simps sum_list_update_others)
next
  case (wSend r)
  then show ?thesis
    using assms(2,3) sum_list_split [of i "workers c" wHolds]
    by (simp add: inv_count_def setWorker_simps sum_list_update_others)
next
  case wFinish
  then show ?thesis
    using assms(2,3) sum_list_split [of i "workers c" wHolds]
    by (simp add: inv_count_def setWorker_simps sum_list_update_others)
next
  case (wCrashU dm code)
  then show ?thesis
    using assms(2,3) sum_list_split [of i "workers c" wHolds]
    by (simp add: inv_count_def setWorker_simps sum_list_update_others)
next
  case (wCrashS r)
  then show ?thesis
    using assms(2,3) sum_list_split [of i "workers c" wHolds]
    by (simp add: inv_count_def setWorker_simps sum_list_update_others)
next
  case wCrashW
  then show ?thesis
    using assms(2,3) sum_list_split [of i "workers c" wHolds]
    by (simp add: inv_count_def setWorker_simps sum_list_update_others)
qed

lemma mutex_workers:
  assumes "inv_mutex c" and "i < length (workers c)" and "k < length (workers c)"
    and "wInCS (workers c ! i)" and "wInCS (workers c ! k)"
  shows "i = k"
proof -
  from assms(1) have a: "\<forall>j<length (workers c). wInCS (workers c ! j) \<longrightarrow> mu c = Some (Worker j)"
    by (simp add: inv_mutex_def)
  from a assms(2,4) have "mu c = Some (Worker i)" by blast
  moreover from a assms(3,5) have "mu c = Some (Worker k)" by blast
  ultimately show ?thesis by simp
qed

lemma mutex_worker_aggregator:
  assumes "inv_mutex c" and "i < length (workers c)" and "wInCS (workers c ! i)"
  shows "\<not> aInCS (aggregator c)"
proof
  assume "aInCS (aggregator c)"
  with assms(1) have "mu c = Some Aggregator" by (simp add: inv_mutex_def)
  moreover from assms(1) have "\<forall>j<length (workers c). wInCS (workers c ! j) \<longrightarrow> mu c = Some (Worker j)"
    by (simp add: inv_mutex_def)
  with assms(2,3) have "mu c = Some (Worker i)" by blast
  ultimately show False by simp
qed

lemma feeder_nolost:
  assumes "feederStep c = Some c'" and "inv_nolost c"
  shows "inv_nolost c'"
  using assms(1)
proof (cases rule: feederStep_cases)
  case (fSend d ds)
  then show ?thesis using assms(2) by (simp add: inv_nolost_def)
next
  case fClose
  then show ?thesis using assms(2) by (simp add: inv_nolost_def)
next
  case (fCrash ds)
  then show ?thesis using assms(2) by (simp add: inv_nolost_def)
qed

lemma closer_nolost:
  assumes "closerStep c = Some c'" and "inv_nolost c"
  shows "inv_nolost c'"
  using assms(1)
proof (cases rule: closerStep_cases)
  case cWait
  then show ?thesis using assms(2) by (simp add: inv_nolost_def)
next
  case cClose
  then show ?thesis using assms(2) by (simp add: inv_nolost_def)
next
  case cCrash
  then show ?thesis using assms(2) by (simp add: inv_nolost_def)
qed

lemma aggregator_nolost:
  assumes "aggregatorStep c = Some c'" and "inv_nolost c"
  shows "inv_nolost c'"
  using assms(1)
proof (cases rule: aggregatorStep_cases)
  case (aRecv r rs)
  then show ?thesis using assms(2) by (simp add: inv_nolost_def)
next
  case aFinish
  then show ?thesis using assms(2) by (simp add: inv_nolost_def)
next
  case (aLock r)
  then show ?thesis using assms(2) by (simp add: inv_nolost_def)
next
  case (aRead r)
  then show ?thesis using assms(2) by (simp add: inv_nolost_def)
next
  case (aWrite r tmp)
  then show ?thesis using assms(2) by (simp add: inv_nolost_def)
next
  case (aPct r)
  then show ?thesis using assms(2) by (simp add: inv_nolost_def)
next
  case (aUnlock r p)
  then show ?thesis using assms(2) by (simp add: inv_nolost_def)
next
  case (aPrint r p)
  then show ?thesis using assms(2) by (simp add: inv_nolost_def)
next
  case (aCrash r p)
  then show ?thesis using assms(2) by (simp add: inv_nolost_def)
qed

lemma inv_nolost_worker:
  assumes "i < length (workers c)" and "workers c' = (workers c)[i := w]"
    and "checker c' = checker c" and "aggregator c' = aggregator c"
    and "\<And>dm code tmp. w = WWrite dm code tmp \<Longrightarrow> tmp = successfulDomains (checker c)"
    and "inv_nolost c"
  shows "inv_nolost c'"
  unfolding inv_nolost_def
proof (intro conjI allI impI)
  fix k dm code tmp
  assume k: "k < length (workers c')" and w: "workers c' ! k = WWrite dm code tmp"
  show "tmp = successfulDomains (checker c')"
  proof (cases "k = i")
    case True
    with w assms(1,2) have "w = WWrite dm code tmp" by simp
    with assms(5,3) show ?thesis by simp
  next
    case False
    with w k assms(1,2) have "workers c ! k = WWrite dm code tmp" and "k < length (workers c)"
      by simp_all
    with assms(6,3) show ?thesis unfolding inv_nolost_def by metis
  qed
next
  fix r tmp
  assume "aggregator c' = AWrite r tmp"
  with assms(4) have "aggregator c = AWrite r tmp" by simp
  with assms(6,3) show "tmp = processedDomains (checker c')"
    unfolding inv_nolost_def by metis
qed

lemma inv_nolost_crash: "inv_nolost c \<Longrightarrow> inv_nolost (c\<lparr>crashed := True\<rparr>)"
  by (simp add: inv_nolost_def)

lemma worker_nolost:
  assumes "workerStep i resp c = Some c'" and "i < length (workers c)"
    and "inv_nolost c" and "inv_mutex c"
  shows "inv_nolost c'"
  using assms(1)
proof (cases rule: workerStep_cases)
  case (wRecv d ds)
  then show ?thesis using assms(2,3)
    by (intro inv_nolost_worker [of i c c' "WGet d"]) (simp_all add: setWorker_simps)
next
  case wLeave
  then show ?thesis using assms(2,3)
    by (intro inv_nolost_worker [of i c c' "WExit"]) (simp_all add: setWorker_simps)
next
  case (wGetErr d err)
  then show ?thesis using assms(2,3)
    by (intro inv_nolost_worker [of i c c' "WSend \<lparr>Domain = normalize d, StatusCode = 0, Error = Some err\<rparr>"]) (simp_all add: setWorker_simps)
next
  case (wGetIn d code)
  then show ?thesis using assms(2,3)
    by (intro inv_nolost_worker [of i c c' "WLock (normalize d) code"]) (simp_all add: setWorker_simps)
next
  case (wGetOut d code)
  then show ?thesis using assms(2,3)
    by (intro inv_nolost_worker [of i c c' "WSend \<lparr>Domain = normalize d, StatusCode = code, Error = None\<rparr>"]) (simp_all add: setWorker_simps)
next
  case (wLock url code)
  then show ?thesis using assms(2,3)
    by (intro inv_nolost_worker [of i c c' "WRead url code"]) (simp_all add: setWorker_simps)
next
  case (wRead url code)
  then show ?thesis using assms(2,3)
    by (intro inv_nolost_worker [of i c c' "WWrite (TrimPrefix url ''https://'') code (successfulDomains (checker c))"]) (simp_all add: setWorker_simps)
next
  case (wWrite dm code tmp)
  have ex: "\<And>k. k < length (workers c) \<Longrightarrow> wInCS (workers c ! k) \<Longrightarrow> k = i"
    using assms(2,4) wWrite(1) mutex_workers [of c _ i] by simp
  have ag: "\<not> aInCS (aggregator c)"
    using assms(2,4) wWrite(1) mutex_worker_aggregator [of c i] by simp
  show ?thesis unfolding inv_nolost_def
  proof (intro conjI allI impI)
    fix k dm' code' tmp'
    assume k: "k < length (workers c')" and w: "workers c' ! k = WWrite dm' code' tmp'"
    have "k \<noteq> i" using w wWrite(2) assms(2) by (auto simp: setWorker_simps)
    with k w wWrite(2) have "workers c ! k = WWrite dm' code' tmp'" and "k < length (workers c)"
      by (simp_all add: setWorker_simps)
    with ex [of k] \<open>k \<noteq> i\<close> show "tmp' = successfulDomains (checker c')" by simp
  next
    fix r tmp'
    assume "aggregator c' = AWrite r tmp'"
    with wWrite(2) have "aggregator c = AWrite r tmp'" by (simp add: setWorker_simps)
    with ag show "tmp' = processedDomains (checker c')" by simp
  qed
next
  case (wUnlock dm code)
  then show ?thesis using assms(2,3)
    by (intro inv_nolost_worker [of i c c' "WSend \<lparr>Domain = dm, StatusCode = code, Error = None\<rparr>"]) (simp_all add: setWorker_simps)
next
  case (wSend r)
  then show ?thesis using assms(2,3)
    by (intro inv_nolost_worker [of i c c' "WRecv"]) (simp_all add: setWorker_simps)
next
  case wFinish
  then show ?thesis using assms(2,3)
    by (intro inv_nolost_worker [of i c c' "WDone"]) (simp_all add: setWorker_simps)
next
  case (wCrashU dm code)
  then show ?thesis using assms(3) by (simp add: inv_nolost_crash)
next
  case (wCrashS r)
  then show ?thesis using assms(3) by (simp add: inv_nolost_crash)
next
  case wCrashW
  then show ?thesis using assms(3) by (simp add: inv_nolost_crash)
qed

lemma feeder_window:
  assumes "feederStep c = Some c'" and "inv_window c"
  shows "inv_window c'"
  using assms(1)
proof (cases rule: feederStep_cases)
  case (fSend d ds)
  then show ?thesis using assms(2) by (simp add: inv_window_def)
next
  case fClose
  then show ?thesis using assms(2) by (simp add: inv_window_def)
next
  case (fCrash ds)
  then show ?thesis using assms(2) by (simp add: inv_window_def)
qed

lemma closer_window:
  assumes "closerStep c = Some c'" and "inv_window c"
  shows "inv_window c'"
  using assms(1)
proof (cases rule: closerStep_cases)
  case cWait
  then show ?thesis using assms(2) by (simp add: inv_window_def)
next
  case cClose
  then show ?thesis using assms(2) by (simp add: inv_window_def)
next
  case cCrash
  then show ?thesis using assms(2) by (simp add: inv_window_def)
qed

lemma aggregator_window:
  assumes "aggregatorStep c = Some c'" and "inv_window c"
  shows "inv_window c'"
  using assms(1)
proof (cases rule: aggregatorStep_cases)
  case (aRecv r rs)
  then show ?thesis using assms(2) by (simp add: inv_window_def)
next
  case aFinish
  then show ?thesis using assms(2) by (simp add: inv_window_def)
next
  case (aLock r)
  then show ?thesis using assms(2) by (simp add: inv_window_def)
next
  case (aRead r)
  then show ?thesis using assms(2) by (simp add: inv_window_def)
next
  case (aWrite r tmp)
  then show ?thesis using assms(2) by (simp add: inv_window_def)
next
  case (aPct r)
  then show ?thesis using assms(2) by (simp add: inv_window_def)
next
  case (aUnlock r p)
  then show ?thesis using assms(2) by (simp add: inv_window_def)
next
  case (aPrint r p)
  then show ?thesis using assms(2) by (simp add: inv_window_def)
next
  case (aCrash r p)
  then show ?thesis using assms(2) by (simp add: inv_window_def)
qed

lemma worker_window:
  assumes "workerStep i resp c = Some c'" and "i < length (workers c)" and "inv_window c"
  shows "inv_window c'"
  using assms(1)
proof (cases rule: workerStep_cases)
  case (wRecv d ds)
  then show ?thesis using assms(2,3)
    by (auto simp: inv_window_def setWorker_simps nth_list_update)
next
  case wLeave
  then show ?thesis using assms(2,3)
    by (auto simp: inv_window_def setWorker_simps nth_list_update)
next
  case (wGetErr d err)
  then show ?thesis using assms(2,3)
    by (auto simp: inv_window_def setWorker_simps nth_list_update)
next
  case (wGetIn d code)
  then show ?thesis using assms(2,3)
    by (auto simp: inv_window_def setWorker_simps nth_list_update)
next
  case (wGetOut d code)
  then show ?thesis using assms(2,3)
    by (auto simp: inv_window_def setWorker_simps nth_list_update)
next
  case (wLock url code)
  then show ?thesis using assms(2,3)
    by (auto simp: inv_window_def setWorker_simps nth_list_update)
next
  case (wRead url code)
  then show ?thesis using assms(2,3)
    by (auto simp: inv_window_def setWorker_simps nth_list_update)
next
  case (wWrite dm code tmp)
  then show ?thesis using assms(2,3)
    by (auto simp: inv_window_def setWorker_simps nth_list_update)
next
  case (wUnlock dm code)
  then show ?thesis using assms(2,3)
    by (auto simp: inv_window_def setWorker_simps nth_list_update)
next
  case (wSend r)
  then show ?thesis using assms(2,3)
    by (auto simp: inv_window_def setWorker_simps nth_list_update)
next
  case wFinish
  then show ?thesis using assms(2,3)
    by (auto simp: inv_window_def setWorker_simps nth_list_update)
next
  case (wCrashU dm code)
  then show ?thesis using assms(2,3)
    by (auto simp: inv_window_def setWorker_simps nth_list_update)
next
  case (wCrashS r)
  then show ?thesis using assms(2,3)
    by (auto simp: inv_window_def setWorker_simps nth_list_update)
next
  case wCrashW
  then show ?thesis using assms(2,3)
    by (auto simp: inv_window_def setWorker_simps nth_list_update)
qed

lemma lineQual_printLine: "lineQual (printLine r p) = qual r"
  by (cases "Error r") (simp_all add: printLine_def qual_def)

lemma feeder_success:
  assumes "feederStep c = Some c'" and "inv_success c"
  shows "inv_success c'"
  using assms(1)
proof (cases rule: feederStep_cases)
  case (fSend d ds)
  then show ?thesis using assms(2) by (simp add: inv_success_def)
next
  case fClose
  then show ?thesis using assms(2) by (simp add: inv_success_def)
next
  case (fCrash ds)
  then show ?thesis using assms(2) by (simp add: inv_success_def)
qed

lemma closer_success:
  assumes "closerStep c = Some c'" and "inv_success c"
  shows "inv_success c'"
  using assms(1)
proof (cases rule: closerStep_cases)
  case cWait
  then show ?thesis using assms(2) by (simp add: inv_success_def)
next
  case cClose
  then show ?thesis using assms(2) by (simp add: inv_success_def)
next
  case cCrash
  then show ?thesis using assms(2) by (simp add: inv_success_def)
qed

lemma aggregator_success:
  assumes "aggregatorStep c = Some c'" and "inv_success c"
  shows "inv_success c'"
  using assms(1)
proof (cases rule: aggregatorStep_cases)
  case (aRecv r rs)
  then show ?thesis using assms(2) by (simp add: inv_success_def lineQual_printLine)
next
  case aFinish
  then show ?thesis using assms(2) by (simp add: inv_success_def lineQual_printLine)
next
  case (aLock r)
  then show ?thesis using assms(2) by (simp add: inv_success_def lineQual_printLine)
next
  case (aRead r)
  then show ?thesis using assms(2) by (simp add: inv_success_def lineQual_printLine)
next
  case (aWrite r tmp)
  then show ?thesis using assms(2) by (simp add: inv_success_def lineQual_printLine)
next
  case (aPct r)
  then show ?thesis using assms(2) by (simp add: inv_success_def lineQual_printLine)
next
  case (aUnlock r p)
  then show ?thesis using assms(2) by (simp add: inv_success_def lineQual_printLine)
next
  case (aPrint r p)
  then show ?thesis using assms(2) by (simp add: inv_success_def lineQual_printLine)
next
  case (aCrash r p)
  then show ?thesis using assms(2) by (simp add: inv_success_def lineQual_printLine)
qed

lemma worker_success:
  assumes "workerStep i resp c = Some c'" and "i < length (workers c)"
    and "inv_success c" and "inv_nolost c" and "inv_window c"
  shows "inv_success c'"
  using assms(1)
proof (cases rule: workerStep_cases)
  case (wRecv d ds)
  then show ?thesis
    using assms(2,3) sum_list_split [of i "workers c" wAppended]
    by (simp add: inv_success_def setWorker_simps sum_list_update_others qual_def)
next
  case wLeave
  then show ?thesis
    using assms(2,3) sum_list_split [of i "workers c" wAppended]
    by (simp add: inv_success_def setWorker_simps sum_list_update_others qual_def)
next
  case (wGetErr d err)
  then show ?thesis
    using assms(2,3) sum_list_split [of i "workers c" wAppended]
    by (simp add: inv_success_def setWorker_simps sum_list_update_others qual_def)
next
  case (wGetIn d code)
  then show ?thesis
    using assms(2,3) sum_list_split [of i "workers c" wAppended]
    by (simp add: inv_success_def setWorker_simps sum_list_update_others qual_def)
next
  case (wGetOut d code)
  then show ?thesis
    using assms(2,3) sum_list_split [of i "workers c" wAppended]
    by (simp add: inv_success_def setWorker_simps sum_list_update_others qual_def)
next
  case (wLock url code)
  then show ?thesis
    using assms(2,3) sum_list_split [of i "workers c" wAppended]
    by (simp add: inv_success_def setWorker_simps sum_list_update_others qual_def)
next
  case (wRead url code)
  then show ?thesis
    using assms(2,3) sum_list_split [of i "workers c" wAppended]
    by (simp add: inv_success_def setWorker_simps sum_list_update_others qual_def)
next
  case (wWrite dm code tmp)
  have "tmp = successfulDomains (checker c)"
    using assms(2,4) wWrite(1) unfolding inv_nolost_def by metis
  with wWrite show ?thesis
    using assms(2,3) sum_list_split [of i "workers c" wAppended]
    by (simp add: inv_success_def setWorker_simps sum_list_update_others)
next
  case (wUnlock dm code)
  have "inWindow code"
    using assms(2,5) wUnlock(1) unfolding inv_window_def by fastforce
  with wUnlock show ?thesis
    using assms(2,3) sum_list_split [of i "workers c" wAppended]
    by (simp add: inv_success_def setWorker_simps sum_list_update_others qual_def)
next
  case (wSend r)
  then show ?thesis
    using assms(2,3) sum_list_split [of i "workers c" wAppended]
    by (simp add: inv_success_def setWorker_simps sum_list_update_others qual_def)
next
  case wFinish
  then show ?thesis
    using assms(2,3) sum_list_split [of i "workers c" wAppended]
    by (simp add: inv_success_def setWorker_simps sum_list_update_others qual_def)
next
  case (wCrashU dm code)
  then show ?thesis
    using assms(2,3) sum_list_split [of i "workers c" wAppended]
    by (simp add: inv_success_def setWorker_simps sum_list_update_others qual_def)
next
  case (wCrashS r)
  then show ?thesis
    using assms(2,3) sum_list_split [of i "workers c" wAppended]
    by (simp add: inv_success_def setWorker_simps sum_list_update_others qual_def)
next
  case wCrashW
  then show ?thesis
    using assms(2,3) sum_list_split [of i "workers c" wAppended]
    by (simp add: inv_success_def setWorker_simps sum_list_update_others qual_def)
qed

lemma lpct_printLine: "lpct (printLine r p) = p"
  by (cases "Error r") (simp_all add: printLine_def)

lemma feeder_printed:
  assumes "feederStep c = Some c'" and "inv_printed ds c"
  shows "inv_printed ds c'"
  using assms(1)
proof (cases rule: feederStep_cases)
  case (fSend d ds)
  then show ?thesis using assms(2) by (simp add: inv_printed_def)
next
  case fClose
  then show ?thesis using assms(2) by (simp add: inv_printed_def)
next
  case (fCrash ds)
  then show ?thesis using assms(2) by (simp add: inv_printed_def)
qed

lemma closer_printed:
  assumes "closerStep c = Some c'" and "inv_printed ds c"
  shows "inv_printed ds c'"
  using assms(1)
proof (cases rule: closerStep_cases)
  case cWait
  then show ?thesis using assms(2) by (simp add: inv_printed_def)
next
  case cClose
  then show ?thesis using assms(2) by (simp add: inv_printed_def)
next
  case cCrash
  then show ?thesis using assms(2) by (simp add: inv_printed_def)
qed

lemma worker_printed:
  assumes "workerStep i resp c = Some c'" and "inv_printed ds c"
  shows "inv_printed ds c'"
  using assms(1)
proof (cases rule: workerStep_cases)
  case (wRecv d ds)
  then show ?thesis using assms(2) by (simp add: inv_printed_def setWorker_simps)
next
  case wLeave
  then show ?thesis using assms(2) by (simp add: inv_printed_def setWorker_simps)
next
  case (wGetErr d err)
  then show ?thesis using assms(2) by (simp add: inv_printed_def setWorker_simps)
next
  case (wGetIn d code)
  then show ?thesis using assms(2) by (simp add: inv_printed_def setWorker_simps)
next
  case (wGetOut d code)
  then show ?thesis using assms(2) by (simp add: inv_printed_def setWorker_simps)
next
  case (wLock url code)
  then show ?thesis using assms(2) by (simp add: inv_printed_def setWorker_simps)
next
  case (wRead url code)
  then show ?thesis using assms(2) by (simp add: inv_printed_def setWorker_simps)
next
  case (wWrite dm code tmp)
  then show ?thesis using assms(2) by (simp add: inv_printed_def setWorker_simps)
next
  case (wUnlock dm code)
  then show ?thesis using assms(2) by (simp add: inv_printed_def setWorker_simps)
next
  case (wSend r)
  then show ?thesis using assms(2) by (simp add: inv_printed_def setWorker_simps)
next
  case wFinish
  then show ?thesis using assms(2) by (simp add: inv_printed_def setWorker_simps)
next
  case (wCrashU dm code)
  then show ?thesis using assms(2) by (simp add: inv_printed_def setWorker_simps)
next
  case (wCrashS r)
  then show ?thesis using assms(2) by (simp add: inv_printed_def setWorker_simps)
next
  case wCrashW
  then show ?thesis using assms(2) by (simp add: inv_printed_def setWorker_simps)
qed

lemma aggregator_printed:
  assumes "aggregatorStep c = Some c'" and "inv_printed ds c" and "inv_nolost c"
    and "inv_shape ds n c"
  shows "inv_printed ds c'"
  using assms(1)
proof (cases rule: aggregatorStep_cases)
  case (aRecv r rs)
  then show ?thesis using assms(2) by (simp add: inv_printed_def)
next
  case aFinish
  then show ?thesis using assms(2) by (simp add: inv_printed_def)
next
  case (aLock r)
  then show ?thesis using assms(2) by (simp add: inv_printed_def)
next
  case (aRead r)
  then show ?thesis using assms(2) by (simp add: inv_printed_def)
next
  case (aWrite r tmp)
  have "tmp = processedDomains (checker c)"
    using assms(3) aWrite(1) unfolding inv_nolost_def by metis
  with aWrite show ?thesis using assms(2) by (simp add: inv_printed_def)
next
  case (aPct r)
  have "percentage (checker c) = pctOf ds (Suc (length (printed c)))"
    using assms(2,4) aPct(1) by (simp add: inv_printed_def inv_shape_def percentage_def pctOf_def)
  with aPct show ?thesis using assms(2) by (simp add: inv_printed_def)
next
  case (aUnlock r p)
  then show ?thesis using assms(2) by (simp add: inv_printed_def)
next
  case (aPrint r p)
  have "p = pctOf ds (Suc (length (printed c)))"
    using assms(2) aPrint(1) by (simp add: inv_printed_def)
  with aPrint show ?thesis using assms(2) by (simp add: inv_printed_def lpct_printLine)
next
  case (aCrash r p)
  then show ?thesis using assms(2) by (simp add: inv_printed_def)
qed

lemma mutex_holder:
  assumes "inv_mutex c" and "i < length (workers c)" and "wInCS (workers c ! i)"
  shows "mu c = Some (Worker i)"
proof -
  from assms(1) have "\<forall>j<length (workers c). wInCS (workers c ! j) \<longrightarrow> mu c = Some (Worker j)"
    by (simp add: inv_mutex_def)
  with assms(2,3) show ?thesis by blast
qed

lemma feeder_nocrash:
  assumes "feederStep c = Some c'" and "inv_life c" and "\<not> crashed c"
  shows "\<not> crashed c'"
  using assms(1)
proof (cases rule: feederStep_cases)
  case (fSend d ds)
  then show ?thesis using assms(2,3) by (simp add: inv_life_def)
next
  case fClose
  then show ?thesis using assms(2,3) by (simp add: inv_life_def)
next
  case (fCrash ds)
  then show ?thesis using assms(2,3) by (simp add: inv_life_def)
qed

lemma closer_nocrash:
  assumes "closerStep c = Some c'" and "inv_life c" and "\<not> crashed c"
  shows "\<not> crashed c'"
  using assms(1)
proof (cases rule: closerStep_cases)
  case cWait
  then show ?thesis using assms(2,3) by (simp add: inv_life_def)
next
  case cClose
  then show ?thesis using assms(2,3) by (simp add: inv_life_def)
next
  case cCrash
  then show ?thesis using assms(2,3) by (simp add: inv_life_def)
qed

lemma aggregator_nocrash:
  assumes "aggregatorStep c = Some c'" and "inv_mutex c" and "\<not> crashed c"
  shows "\<not> crashed c'"
  using assms(1)
proof (cases rule: aggregatorStep_cases)
  case (aRecv r rs)
  then show ?thesis using assms(2,3) by (simp add: inv_mutex_def)
next
  case aFinish
  then show ?thesis using assms(2,3) by (simp add: inv_mutex_def)
next
  case (aLock r)
  then show ?thesis using assms(2,3) by (simp add: inv_mutex_def)
next
  case (aRead r)
  then show ?thesis using assms(2,3) by (simp add: inv_mutex_def)
next
  case (aWrite r tmp)
  then show ?thesis using assms(2,3) by (simp add: inv_mutex_def)
next
  case (aPct r)
  then show ?thesis using assms(2,3) by (simp add: inv_mutex_def)
next
  case (aUnlock r p)
  then show ?thesis using assms(2,3) by (simp add: inv_mutex_def)
next
  case (aPrint r p)
  then show ?thesis using assms(2,3) by (simp add: inv_mutex_def)
next
  case (aCrash r p)
  then show ?thesis using assms(2,3) by (simp add: inv_mutex_def)
qed

lemma worker_nocrash:
  assumes "workerStep i resp c = Some c'" and "i < length (workers c)"
    and "inv_mutex c" and "inv_life c" and "\<not> crashed c"
  shows "\<not> crashed c'"
  using assms(1)
proof (cases rule: workerStep_cases)
  case (wRecv d ds)
  then show ?thesis using assms(5) by (simp add: setWorker_simps)
next
  case wLeave
  then show ?thesis using assms(5) by (simp add: setWorker_simps)
next
  case (wGetErr d err)
  then show ?thesis using assms(5) by (simp add: setWorker_simps)
next
  case (wGetIn d code)
  then show ?thesis using assms(5) by (simp add: setWorker_simps)
next
  case (wGetOut d code)
  then show ?thesis using assms(5) by (simp add: setWorker_simps)
next
  case (wLock url code)
  then show ?thesis using assms(5) by (simp add: setWorker_simps)
next
  case (wRead url code)
  then show ?thesis using assms(5) by (simp add: setWorker_simps)
next
  case (wWrite dm code tmp)
  then show ?thesis using assms(5) by (simp add: setWorker_simps)
next
  case (wUnlock dm code)
  then show ?thesis using assms(5) by (simp add: setWorker_simps)
next
  case (wSend r)
  then show ?thesis using assms(5) by (simp add: setWorker_simps)
next
  case wFinish
  then show ?thesis using assms(5) by (simp add: setWorker_simps)
next
  case (wCrashU dm code)
  then show ?thesis using assms(2,3) mutex_holder [of c i] by simp
next
  case (wCrashS r)
  then show ?thesis using assms(2,4) sum_list_split [of i "workers c" wAlive]
    by (auto simp: inv_life_def)
next
  case wCrashW
  then show ?thesis using assms(2,4) sum_list_split [of i "workers c" wAlive]
    by (simp add: inv_life_def)
qed

lemma fire_invariant:
  assumes "fire t resp c = Some c'" and "invariant ds n c"
  shows "invariant ds n c'"
proof -
  from assms(2) have sh: "inv_shape ds n c" and mx: "inv_mutex c" and lf: "inv_life c"
    and ct: "inv_count ds c" and nl: "inv_nolost c" and wi: "inv_window c"
    and su: "inv_success c" and pr: "inv_printed ds c" and nc: "\<not> crashed c"
    by (simp_all add: invariant_def)
  show ?thesis
  proof (cases t)
    case Feeder
    with assms(1) have s: "feederStep c = Some c'"
      by (simp add: fire_def split: if_splits)
    show ?thesis
      unfolding invariant_def
      using feeder_shape [OF s sh] feeder_mutex [OF s mx] feeder_life [OF s lf]
        feeder_count [OF s ct] feeder_nolost [OF s nl] feeder_window [OF s wi]
        feeder_success [OF s su] feeder_printed [OF s pr] feeder_nocrash [OF s lf nc]
      by blast
  next
    case (Worker i)
    with assms(1) have s: "workerStep i resp c = Some c'" and i: "i < length (workers c)"
      by (simp_all add: fire_def split: if_splits)
    show ?thesis
      unfolding invariant_def
      using worker_shape [OF s sh] worker_mutex [OF s i mx] worker_life [OF s i lf]
        worker_count [OF s i ct] worker_nolost [OF s i nl mx] worker_window [OF s i wi]
        worker_success [OF s i su nl wi] worker_printed [OF s pr]
        worker_nocrash [OF s i mx lf nc]
      by blast
  next
    case Closer
    with assms(1) have s: "closerStep c = Some c'"
      by (simp add: fire_def split: if_splits)
    show ?thesis
      unfolding invariant_def
      using closer_shape [OF s sh] closer_mutex [OF s mx] closer_life [OF s lf]
        closer_count [OF s ct] closer_nolost [OF s nl] closer_window [OF s wi]
        closer_success [OF s su] closer_printed [OF s pr] closer_nocrash [OF s lf nc]
      by blast
  next
    case Aggregator
    with assms(1) have s: "aggregatorStep c = Some c'"
      by (simp add: fire_def split: if_splits)
    show ?thesis
      unfolding invariant_def
      using aggregator_shape [OF s sh] aggregator_mutex [OF s mx] aggregator_life [OF s lf]
        aggregator_count [OF s ct nl] aggregator_nolost [OF s nl] aggregator_window [OF s wi]
        aggregator_success [OF s su] aggregator_printed [OF s pr nl sh]
        aggregator_nocrash [OF s mx nc]
      by blast
  qed
qed

lemma sum_list_replicate_zero: "sum_list (replicate n 0) = (0::'b::comm_monoid_add)"
  by (induction n) simp_all

lemma init_invariant: "invariant ds n (init ds n)"
  unfolding invariant_def
proof (intro conjI)
  show "inv_shape ds n (init ds n)"
    by (simp add: inv_shape_def init_def NewStatusChecker_def)
  show "inv_mutex (init ds n)"
    by (simp add: inv_mutex_def init_def)
  show "inv_life (init ds n)"
    by (simp add: inv_life_def init_def sum_list_replicate)
  show "inv_count ds (init ds n)"
    by (simp add: inv_count_def init_def NewStatusChecker_def sum_list_replicate)
  show "inv_nolost (init ds n)"
    by (simp add: inv_nolost_def init_def)
  show "inv_window (init ds n)"
    by (simp add: inv_window_def init_def)
  show "inv_success (init ds n)"
    by (simp add: inv_success_def init_def NewStatusChecker_def sum_list_replicate_zero)
  show "inv_printed ds (init ds n)"
    by (simp add: inv_printed_def init_def NewStatusChecker_def)
  show "\<not> crashed (init ds n)"
    by (simp add: init_def)
qed

lemma reachable_invariant: "reachable ds n c \<Longrightarrow> invariant ds n c"
  by (induction rule: reachable.induct) (auto intro: init_invariant fire_invariant)

lemma wAlive_zero: "wAlive w = 0 \<longleftrightarrow> w = WDone"
  by (cases w) simp_all

lemma sum_list_wAlive_zero:
  "sum_list (map wAlive ws) = 0 \<longleftrightarrow> (\<forall>w\<in>set ws. w = WDone)"
  by (induction ws) (simp_all add: wAlive_zero)

lemma sum_list_all_done:
  "\<forall>w\<in>set ws. w = WDone \<Longrightarrow> sum_list (map wHolds ws) = 0"
  by (induction ws) simp_all

lemma sum_list_appended_done:
  "\<forall>w\<in>set ws. w = WDone \<Longrightarrow> sum_list (map wAppended ws) = {#}"
  by (induction ws) simp_all

lemma inv_lifeD:
  assumes "inv_life c"
  shows "domainsClosed c \<longleftrightarrow> feeder c = FDone"
    and "resultsClosed c \<longleftrightarrow> closer c = CDone"
    and "closer c \<noteq> CWait \<Longrightarrow> wg c = 0"
    and "wg c = sum_list (map wAlive (workers c))"
    and "i < length (workers c) \<Longrightarrow> workers c ! i = WExit \<or> workers c ! i = WDone
         \<Longrightarrow> domainsClosed c \<and> domainsCh c = []"
    and "aggregator c = ADone \<Longrightarrow> resultsClosed c \<and> resultsCh c = []"
  using assms by (auto simp: inv_life_def)

lemma inv_mutexD:
  assumes "inv_mutex c"
  shows "i < length (workers c) \<Longrightarrow> wInCS (workers c ! i) \<Longrightarrow> mu c = Some (Worker i)"
    and "aInCS (aggregator c) \<Longrightarrow> mu c = Some Aggregator"
    and "mu c = Some t \<Longrightarrow> holds c t"
  using assms by (auto simp: inv_mutex_def)

lemma finished_all_done:
  assumes "invariant ds n c" and "0 < n" and "aggregator c = ADone"
  shows "feeder c = FDone \<and> domainsCh c = [] \<and> (\<forall>w\<in>set (workers c). w = WDone)
       \<and> resultsCh c = [] \<and> closer c = CDone \<and> mu c = None"
proof -
  from assms(1) have sh: "inv_shape ds n c" and lf: "inv_life c" and mx: "inv_mutex c"
    by (simp_all add: invariant_def)
  from inv_lifeD(6) [OF lf assms(3)] have rc: "resultsClosed c" and re: "resultsCh c = []"
    by simp_all
  from inv_lifeD(2) [OF lf] rc have cl: "closer c = CDone" by simp
  with inv_lifeD(3) [OF lf] have "wg c = 0" by simp
  with inv_lifeD(4) [OF lf] have "sum_list (map wAlive (workers c)) = 0" by simp
  then have dn: "\<forall>w\<in>set (workers c). w = WDone"
    using sum_list_wAlive_zero [of "workers c"] by blast
  from sh assms(2) have l: "0 < length (workers c)" by (simp add: inv_shape_def)
  with dn have w0: "workers c ! 0 = WDone" by simp
  from inv_lifeD(5) [OF lf l] w0 have dc: "domainsClosed c" and de: "domainsCh c = []"
    by simp_all
  from inv_lifeD(1) [OF lf] dc have fd: "feeder c = FDone" by simp
  have "mu c = None"
  proof (cases "mu c")
    case None
    then show ?thesis .
  next
    case (Some t)
    note h = inv_mutexD(3) [OF mx Some]
    show ?thesis
    proof (cases t)
      case (Worker i)
      with h have "i < length (workers c)" and "wInCS (workers c ! i)" by simp_all
      with dn have "wInCS WDone" by (metis nth_mem)
      then show ?thesis by simp
    qed (use h assms(3) in simp_all)
  qed
  with fd de dn re cl show ?thesis by simp
qed

lemma finished_counts:
  assumes "invariant ds n c" and "0 < n" and "aggregator c = ADone"
  shows "processedDomains (checker c) = int (length ds) \<and> length (printed c) = length ds"
proof -
  note d = finished_all_done [OF assms]
  from assms(1) have ct: "inv_count ds c" and pr: "inv_printed ds c"
    by (simp_all add: invariant_def)
  from d have "sum_list (map wHolds (workers c)) = 0" by (simp add: sum_list_all_done)
  with ct d assms(3) have p: "processedDomains (checker c) = int (length ds)"
    by (simp add: inv_count_def)
  with pr assms(3) show ?thesis by (simp add: inv_printed_def)
qed












lemma run_reachable:
  "reachable ds n c0 \<Longrightarrow> run sched c0 = Some c \<Longrightarrow> reachable ds n c"
proof (induction sched arbitrary: c0)
  case Nil
  then show ?case by simp
next
  case (Cons a sched)
  obtain t resp where a: "a = (t, resp)" by (cases a)
  with Cons.prems(2) obtain c1 where f: "fire t resp c0 = Some c1" and r: "run sched c1 = Some c"
    by (auto split: option.splits)
  from Cons.prems(1) f have "reachable ds n c1" by (rule reachable.step)
  then show ?case using r by (rule Cons.IH)
qed

lemma run_schedule1: "run schedule1 (init [''good.example''] 1) = Some final1"
  by (simp add: schedule1_def final1_def init_def fire_def feederStep_def workerStep_def
      closerStep_def aggregatorStep_def setWorker_def bufferSize_def NewStatusChecker_def
      normalize_def HasPrefix_def TrimPrefix_def inWindow_def percentage_def printLine_def)

lemma reachable_final1: "reachable [''good.example''] 1 final1"
  using reachable.start run_schedule1 by (rule run_reachable)





lemma size_lineQual: "size (sum_list (map lineQual ls)) = length (filter qualifying ls)"
proof (induction ls)
  case Nil
  then show ?case by simp
next
  case (Cons l ls)
  then show ?case by (cases l) simp_all
qed

lemma feeder_checker: "feederStep c = Some c' \<Longrightarrow> checker c' = checker c"
  by (erule feederStep_cases) simp_all

lemma closer_checker: "closerStep c = Some c' \<Longrightarrow> checker c' = checker c"
  by (erule closerStep_cases) simp_all

lemma aggregator_checker:
  assumes "aggregatorStep c = Some c'" and "inv_mutex c" and "inv_nolost c"
  shows "checker c' = checker c
       \<or> (mu c = Some Aggregator \<and> increments (checker c) (checker c'))"
  using assms(1)
proof (cases rule: aggregatorStep_cases)
  case (aRecv r rs)
  then show ?thesis by simp
next
  case aFinish
  then show ?thesis by simp
next
  case (aLock r)
  then show ?thesis by simp
next
  case (aRead r)
  then show ?thesis by simp
next
  case (aWrite r tmp)
  have "tmp = processedDomains (checker c)"
    using assms(3) aWrite(1) unfolding inv_nolost_def by metis
  moreover have "mu c = Some Aggregator"
    using inv_mutexD(2) [OF assms(2)] aWrite(1) by simp
  ultimately show ?thesis using aWrite(2) by (simp add: increments_def)
next
  case (aPct r)
  then show ?thesis by simp
next
  case (aUnlock r p)
  then show ?thesis by simp
next
  case (aPrint r p)
  then show ?thesis by simp
next
  case (aCrash r p)
  then show ?thesis by simp
qed

lemma worker_checker:
  assumes "workerStep i resp c = Some c'" and "i < length (workers c)"
    and "inv_mutex c" and "inv_nolost c"
  shows "checker c' = checker c
       \<or> (mu c = Some (Worker i) \<and> appends (checker c) (checker c'))"
  using assms(1)
proof (cases rule: workerStep_cases)
  case (wRecv d ds)
  then show ?thesis by (simp add: setWorker_simps)
next
  case wLeave
  then show ?thesis by (simp add: setWorker_simps)
next
  case (wGetErr d err)
  then show ?thesis by (simp add: setWorker_simps)
next
  case (wGetIn d code)
  then show ?thesis by (simp add: setWorker_simps)
next
  case (wGetOut d code)
  then show ?thesis by (simp add: setWorker_simps)
next
  case (wLock url code)
  then show ?thesis by (simp add: setWorker_simps)
next
  case (wRead url code)
  then show ?thesis by (simp add: setWorker_simps)
next
  case (wWrite dm code tmp)
  have "tmp = successfulDomains (checker c)"
    using assms(2,4) wWrite(1) unfolding inv_nolost_def by metis
  moreover have "mu c = Some (Worker i)"
    using mutex_holder [OF assms(3,2)] wWrite(1) by simp
  ultimately show ?thesis using wWrite(2) by (auto simp: appends_def setWorker_simps)
next
  case (wUnlock dm code)
  then show ?thesis by (simp add: setWorker_simps)
next
  case (wSend r)
  then show ?thesis by (simp add: setWorker_simps)
next
  case wFinish
  then show ?thesis by (simp add: setWorker_simps)
next
  case (wCrashU dm code)
  then show ?thesis by (simp add: setWorker_simps)
next
  case (wCrashS r)
  then show ?thesis by (simp add: setWorker_simps)
next
  case wCrashW
  then show ?thesis by (simp add: setWorker_simps)
qed

lemma fire_checker:
  assumes "fire t resp c = Some c'" and "invariant ds n c"
  shows "checker c' = checker c
       \<or> (mu c = Some t \<and> (appends (checker c) (checker c') \<or> increments (checker c) (checker c')))"
proof -
  from assms(2) have mx: "inv_mutex c" and nl: "inv_nolost c"
    by (simp_all add: invariant_def)
  show ?thesis
  proof (cases t)
    case Feeder
    with assms(1) have "feederStep c = Some c'" by (simp add: fire_def split: if_splits)
    then show ?thesis by (simp add: feeder_checker)
  next
    case (Worker i)
    with assms(1) have "workerStep i resp c = Some c'" and "i < length (workers c)"
      by (simp_all add: fire_def split: if_splits)
    from worker_checker [OF this mx nl] Worker show ?thesis by blast
  next
    case Closer
    with assms(1) have "closerStep c = Some c'" by (simp add: fire_def split: if_splits)
    then show ?thesis by (simp add: closer_checker)
  next
    case Aggregator
    with assms(1) have "aggregatorStep c = Some c'" by (simp add: fire_def split: if_splits)
    from aggregator_checker [OF this mx nl] Aggregator show ?thesis by blast
  qed
qed

lemma finished_success:
  assumes "invariant ds n c" and "0 < n" and "aggregator c = ADone"
  shows "mset (successfulDomains (checker c)) = sum_list (map lineQual (printed c))"
proof -
  note d = finished_all_done [OF assms]
  from assms(1) have su: "inv_success c" by (simp add: invariant_def)
  from d have "sum_list (map wAppended (workers c)) = {#}"
    by (simp add: sum_list_appended_done)
  with su d assms(3) show ?thesis by (simp add: inv_success_def)
qed

lemma holds_mu:
  assumes "inv_mutex c" and "holds c t"
  shows "mu c = Some t"
proof (cases t)
  case (Worker i)
  with assms(2) have "i < length (workers c)" and "wInCS (workers c ! i)" by simp_all
  with assms(1) Worker show ?thesis by (simp add: mutex_holder)
next
  case Aggregator
  with assms(2) have "aInCS (aggregator c)" by simp
  with assms(1) Aggregator show ?thesis by (simp add: inv_mutexD(2))
qed (use assms(2) in simp_all)

lemma run_beforeWrite1: "run (take 6 schedule1) (init [''good.example''] 1) = Some beforeWrite1"
  by (simp add: schedule1_def beforeWrite1_def init_def fire_def feederStep_def workerStep_def
      closerStep_def aggregatorStep_def setWorker_def bufferSize_def NewStatusChecker_def
      normalize_def HasPrefix_def TrimPrefix_def inWindow_def)

lemma reachable_beforeWrite1: "reachable [''good.example''] 1 beforeWrite1"
  using reachable.start run_beforeWrite1 by (rule run_reachable)

text \<open>
  Claim C3. Under every interleaving of the \<open>n \<ge> 1\<close> workers, the feeder, the closer
  and the aggregator: a step that changes the checker is taken by the goroutine that holds
  the mutex, and it is an append to the current list or an increment of the current
  counter (what the step wrote back is what it read, extended); two goroutines are never
  both between \<^verbatim>\<open>Lock\<close> and \<^verbatim>\<open>Unlock\<close>; and once \<^verbatim>\<open>processResults\<close> has left its loop
  the counter is the number \<open>M\<close> of domains and the list is as long as the number of
  qualifying results printed.
\<close>

theorem C3_no_lost_update:
  assumes "1 \<le> n"
  shows "(\<forall>c t resp c'. reachable ds n c \<and> fire t resp c = Some c' \<and> checker c' \<noteq> checker c
            \<longrightarrow> mu c = Some t
                \<and> (appends (checker c) (checker c') \<or> increments (checker c) (checker c')))
       \<and> (\<forall>c t u. reachable ds n c \<and> holds c t \<and> holds c u \<longrightarrow> t = u)
       \<and> (\<forall>c. reachable ds n c \<and> aggregator c = ADone \<longrightarrow>
              processedDomains (checker c) = int (length ds)
              \<and> length (successfulDomains (checker c)) = length (filter qualifying (printed c)))"
proof (intro conjI allI impI)
  fix c t resp c'
  assume a: "reachable ds n c \<and> fire t resp c = Some c' \<and> checker c' \<noteq> checker c"
  then have i: "invariant ds n c" by (simp add: reachable_invariant)
  from a have f: "fire t resp c = Some c'" by simp
  from fire_checker [OF f i] a
  show "mu c = Some t"
    and "appends (checker c) (checker c') \<or> increments (checker c) (checker c')"
    by blast+
next
  fix c t u
  assume a: "reachable ds n c \<and> holds c t \<and> holds c u"
  then have "invariant ds n c" by (simp add: reachable_invariant)
  then have mx: "inv_mutex c" by (simp add: invariant_def)
  from a have "mu c = Some t" and "mu c = Some u" by (simp_all add: holds_mu [OF mx])
  then show "t = u" by simp
next
  fix c
  assume a: "reachable ds n c \<and> aggregator c = ADone"
  then have i: "invariant ds n c" and d: "aggregator c = ADone"
    by (simp_all add: reachable_invariant)
  from assms have n: "0 < n" by simp
  from finished_counts [OF i n d]
  show "processedDomains (checker c) = int (length ds)" by simp
  from finished_success [OF i n d]
  have "size (mset (successfulDomains (checker c))) = size (sum_list (map lineQual (printed c)))"
    by simp
  then show "length (successfulDomains (checker c)) = length (filter qualifying (printed c))"
    by (simp add: size_lineQual)
qed

theorem C3_no_lost_update_witness:
  "(1::nat) \<le> 1 \<and> reachable [''good.example''] 1 beforeWrite1
   \<and> holds beforeWrite1 (Worker 0)
   \<and> (\<exists>c'. fire (Worker 0) (Inr 0) beforeWrite1 = Some c'
          \<and> checker c' \<noteq> checker beforeWrite1
          \<and> mu beforeWrite1 = Some (Worker 0)
          \<and> (appends (checker beforeWrite1) (checker c')
              \<or> increments (checker beforeWrite1) (checker c')))
   \<and> reachable [''good.example''] 1 final1 \<and> aggregator final1 = ADone
   \<and> processedDomains (checker final1) = 1
   \<and> length (successfulDomains (checker final1)) = length (filter qualifying (printed final1))"
proof -
  have n: "(1::nat) \<le> 1" by simp
  note t = C3_no_lost_update [OF n, of "[''good.example'']"]
  define c' where "c' = setWorker 0 (WUnlock ''good.example'' 200)
      (beforeWrite1\<lparr>checker := (checker beforeWrite1)\<lparr>successfulDomains := [] @ [''good.example'']\<rparr>\<rparr>)"
  have f: "fire (Worker 0) (Inr 0) beforeWrite1 = Some c'"
    by (simp add: c'_def fire_def workerStep_def beforeWrite1_def)
  have ne: "checker c' \<noteq> checker beforeWrite1"
    by (simp add: c'_def beforeWrite1_def setWorker_def)
  have h: "holds beforeWrite1 (Worker 0)" by (simp add: beforeWrite1_def)
  from t reachable_beforeWrite1 f ne
  have 1: "mu beforeWrite1 = Some (Worker 0)
      \<and> (appends (checker beforeWrite1) (checker c')
          \<or> increments (checker beforeWrite1) (checker c'))"
    by blast
  have d: "aggregator final1 = ADone" by (simp add: final1_def)
  from t reachable_final1 d
  have 2: "processedDomains (checker final1) = int (length [''good.example''])
      \<and> length (successfulDomains (checker final1)) = length (filter qualifying (printed final1))"
    by blast
  from n reachable_beforeWrite1 h f ne 1 reachable_final1 d 2 show ?thesis by auto
qed























lemma report_above: "500 < code \<Longrightarrow> report (d, Inr code) = (normalize d, Some code)"
  by (simp add: inWindow_def)



lemma feeder_workers: "feederStep c = Some c' \<Longrightarrow> workers c' = workers c"
  by (erule feederStep_cases) simp_all

lemma closer_workers: "closerStep c = Some c' \<Longrightarrow> workers c' = workers c"
  by (erule closerStep_cases) simp_all

lemma aggregator_workers: "aggregatorStep c = Some c' \<Longrightarrow> workers c' = workers c"
  by (erule aggregatorStep_cases) simp_all

lemma worker_workers_other:
  assumes "workerStep j resp c = Some c'" and "i \<noteq> j"
  shows "workers c' ! i = workers c ! i"
  using assms(1)
proof (cases rule: workerStep_cases)
  case (wRecv d ds)
  then show ?thesis using assms(2) by (simp add: setWorker_simps)
next
  case wLeave
  then show ?thesis using assms(2) by (simp add: setWorker_simps)
next
  case (wGetErr d err)
  then show ?thesis using assms(2) by (simp add: setWorker_simps)
next
  case (wGetIn d code)
  then show ?thesis using assms(2) by (simp add: setWorker_simps)
next
  case (wGetOut d code)
  then show ?thesis using assms(2) by (simp add: setWorker_simps)
next
  case (wLock url code)
  then show ?thesis using assms(2) by (simp add: setWorker_simps)
next
  case (wRead url code)
  then show ?thesis using assms(2) by (simp add: setWorker_simps)
next
  case (wWrite dm code tmp)
  then show ?thesis using assms(2) by (simp add: setWorker_simps)
next
  case (wUnlock dm code)
  then show ?thesis using assms(2) by (simp add: setWorker_simps)
next
  case (wSend r)
  then show ?thesis using assms(2) by (simp add: setWorker_simps)
next
  case wFinish
  then show ?thesis using assms(2) by (simp add: setWorker_simps)
next
  case (wCrashU dm code)
  then show ?thesis using assms(2) by (simp add: setWorker_simps)
next
  case (wCrashS r)
  then show ?thesis using assms(2) by (simp add: setWorker_simps)
next
  case wCrashW
  then show ?thesis using assms(2) by (simp add: setWorker_simps)
qed

lemma worker_exit_only:
  assumes "workerStep i resp c = Some c'" and "i < length (workers c)"
    and "workers c' ! i = WExit" and "workers c ! i \<noteq> WExit"
  shows "workers c ! i = WRecv \<and> domainsCh c = [] \<and> domainsClosed c"
  using assms(1)
proof (cases rule: workerStep_cases)
  case (wRecv d ds)
  then show ?thesis using assms(2,3,4) by (simp add: setWorker_simps)
next
  case wLeave
  then show ?thesis using assms(2,3,4) by (simp add: setWorker_simps)
next
  case (wGetErr d err)
  then show ?thesis using assms(2,3,4) by (simp add: setWorker_simps)
next
  case (wGetIn d code)
  then show ?thesis using assms(2,3,4) by (simp add: setWorker_simps)
next
  case (wGetOut d code)
  then show ?thesis using assms(2,3,4) by (simp add: setWorker_simps)
next
  case (wLock url code)
  then show ?thesis using assms(2,3,4) by (simp add: setWorker_simps)
next
  case (wRead url code)
  then show ?thesis using assms(2,3,4) by (simp add: setWorker_simps)
next
  case (wWrite dm code tmp)
  then show ?thesis using assms(2,3,4) by (simp add: setWorker_simps)
next
  case (wUnlock dm code)
  then show ?thesis using assms(2,3,4) by (simp add: setWorker_simps)
next
  case (wSend r)
  then show ?thesis using assms(2,3,4) by (simp add: setWorker_simps)
next
  case wFinish
  then show ?thesis using assms(2,3,4) by (simp add: setWorker_simps)
next
  case (wCrashU dm code)
  then show ?thesis using assms(2,3,4) by (simp add: setWorker_simps)
next
  case (wCrashS r)
  then show ?thesis using assms(2,3,4) by (simp add: setWorker_simps)
next
  case wCrashW
  then show ?thesis using assms(2,3,4) by (simp add: setWorker_simps)
qed

lemma fire_exit_only:
  assumes "fire t resp c = Some c'" and "i < length (workers c)"
    and "workers c' ! i = WExit" and "workers c ! i \<noteq> WExit"
  shows "workers c ! i = WRecv \<and> domainsCh c = [] \<and> domainsClosed c"
proof (cases t)
  case Feeder
  with assms(1) have "feederStep c = Some c'" by (simp add: fire_def split: if_splits)
  with assms(3,4) show ?thesis by (simp add: feeder_workers)
next
  case (Worker j)
  with assms(1) have s: "workerStep j resp c = Some c'"
    by (simp add: fire_def split: if_splits)
  show ?thesis
  proof (cases "i = j")
    case True
    with s assms(2,3,4) show ?thesis by (simp add: worker_exit_only)
  next
    case False
    from worker_workers_other [OF s False] assms(3,4) show ?thesis by simp
  qed
next
  case Closer
  with assms(1) have "closerStep c = Some c'" by (simp add: fire_def split: if_splits)
  with assms(3,4) show ?thesis by (simp add: closer_workers)
next
  case Aggregator
  with assms(1) have "aggregatorStep c = Some c'" by (simp add: fire_def split: if_splits)
  with assms(3,4) show ?thesis by (simp add: aggregator_workers)
qed

lemma fire_failed_get:
  assumes "invariant ds n c" and "i < n" and "workers c ! i = WGet d"
  shows "fire (Worker i) (Inl err) c =
     Some (setWorker i (WSend \<lparr>Domain = normalize d, StatusCode = 0, Error = Some err\<rparr>)
       (c\<lparr>probes := probes c @ [(d, Inl err)]\<rparr>))"
proof -
  from assms(1) have "length (workers c) = n" and "\<not> crashed c"
    by (simp_all add: invariant_def inv_shape_def)
  with assms(2,3) show ?thesis by (simp add: fire_def workerStep_def)
qed

lemma fire_send:
  assumes "invariant ds n c" and "i < n" and "workers c ! i = WSend r"
    and "length (resultsCh c) < bufferSize"
  shows "fire (Worker i) resp c =
     Some (setWorker i WRecv (c\<lparr>resultsCh := resultsCh c @ [r]\<rparr>))"
proof -
  from assms(1) have l: "length (workers c) = n" and nc: "\<not> crashed c" and lf: "inv_life c"
    by (simp_all add: invariant_def inv_shape_def)
  have "\<not> resultsClosed c"
  proof
    assume "resultsClosed c"
    with inv_lifeD(2) [OF lf] have "closer c \<noteq> CWait" by simp
    with inv_lifeD(3,4) [OF lf] have "sum_list (map wAlive (workers c)) = 0" by simp
    with sum_list_split [of i "workers c" wAlive] assms(2,3) l show False by simp
  qed
  with assms(2,3,4) l nc show ?thesis by (simp add: fire_def workerStep_def)
qed

end
